theory Spec2Isabelle
  imports Main "HOL-Library.Option_ord"
begin

section \<open>Python values and errors\<close>

text \<open>
  Exceptions of the Python program are values: a function that can raise returns
  \<open>error + 'a\<close>, with \<open>Inl\<close> for the exception.  A function that contains a loop which
  may run forever returns \<open>(error + 'a) option\<close>, where \<open>None\<close> means that it does not return.
\<close>

datatype error =
  ValueError | TypeError | KeyError | IndexError | EmptyFrontierError | KeyNotFoundError

definition bindE :: "error + 'a \<Rightarrow> ('a \<Rightarrow> error + 'b) \<Rightarrow> error + 'b" where
  "bindE m f = (case m of Inl e \<Rightarrow> Inl e | Inr a \<Rightarrow> f a)"

type_synonym 'a comp = "(error + 'a) option"

definition bnd :: "'a comp \<Rightarrow> ('a \<Rightarrow> 'b comp) \<Rightarrow> 'b comp" where
  "bnd m f = (case m of None \<Rightarrow> None | Some (Inl e) \<Rightarrow> Some (Inl e) | Some (Inr a) \<Rightarrow> f a)"

text \<open>Python's \<open>for v in xs: acc = body(v, acc)\<close>, where the body may raise.\<close>

fun for_each :: "'a list \<Rightarrow> ('a \<Rightarrow> 's \<Rightarrow> error + 's) \<Rightarrow> 's \<Rightarrow> error + 's" where
  "for_each [] body acc = Inr acc"
| "for_each (v # vs) body acc = bindE (body v acc) (for_each vs body)"

section \<open>The board (module puzz)\<close>

text \<open>
  A board is the nine-character tile string it is built from; equality is equality of the
  layout.  A tile is a character, \<open>0\<close> is the blank.
\<close>

type_synonym tile = char
type_synonym board = string

definition blank :: tile where
  "blank = CHR ''0''"

definition GOAL_STATE :: board where
  "GOAL_STATE = ''012345678''"

fun index_of :: "'a list \<Rightarrow> 'a \<Rightarrow> nat option" where
  "index_of [] a = None"
| "index_of (x # xs) a = (if x = a then Some 0 else map_option Suc (index_of xs a))"

text \<open>
  Modelled from the spec: the position of the cell \<open>(x, y)\<close> in the tile string, which
  module puzz fixes.  The string lists the rows from the top one down, and
  \<open>x = 0, y = 0\<close> is the bottom left cell, as the comment in \<open>_transition_cost\<close> says.
\<close>

definition cell :: "int \<Rightarrow> int \<Rightarrow> nat" where
  "cell x y = nat (6 - 3 * y + x)"

text \<open>
  Modelled from the spec: \<open>find(tile_or_blank)\<close> of module puzz returns the coordinate of a
  tile, or of the blank.  The source asks for the blank both as \<open>find(None)\<close> and as
  \<open>find("0")\<close>.  The result is \<open>None\<close> when the board does not hold the tile.
\<close>

definition board_find :: "board \<Rightarrow> tile option \<Rightarrow> (int \<times> int) option" where
  "board_find b t =
     (case index_of b (case t of None \<Rightarrow> blank | Some c \<Rightarrow> c) of
        None \<Rightarrow> None
      | Some i \<Rightarrow> Some (int (i mod 3), 2 - int (i div 3)))"

text \<open>
  Modelled from the spec: \<open>get_tile(x, y)\<close> of module puzz returns the tile at a coordinate.
  A coordinate outside the board is an IndexError.
\<close>

definition get_tile :: "board \<Rightarrow> int \<Rightarrow> int \<Rightarrow> error + tile" where
  "get_tile b x y =
     (if 0 \<le> x \<and> x < 3 \<and> 0 \<le> y \<and> y < 3 \<and> cell x y < length b
      then Inr (b ! cell x y) else Inl IndexError)"

text \<open>Python's \<open>int(tile)\<close> on a one-character string: a ValueError unless it is a digit.\<close>

definition py_int :: "tile \<Rightarrow> error + int" where
  "py_int c = (case index_of ''0123456789'' c of None \<Rightarrow> Inl ValueError | Some d \<Rightarrow> Inr (int d))"

text \<open>
  Modelled from the spec: \<open>successors()\<close> of module puzz maps each legal move name to the
  board it produces.  A move is named after the direction in which the tile slides into the
  blank: for \<open>up\<close> the tile under the blank moves, for \<open>down\<close> the tile above it, for
  \<open>left\<close> the tile to its right, for \<open>right\<close> the tile to its left (the comments of
  \<open>_transition_cost\<close>).  The entries are listed in the order up, down, left, right.
\<close>

definition create_successor :: "board \<Rightarrow> int \<Rightarrow> int \<Rightarrow> board option" where
  "create_successor b dx dy =
     (case board_find b None of
        None \<Rightarrow> None
      | Some (x, y) \<Rightarrow>
          (let mx = x + dx; my = y + dy in
           if mx < 0 \<or> mx > 2 \<or> my < 0 \<or> my > 2 \<or> length b \<le> cell mx my then None
           else Some (b[cell x y := b ! cell mx my, cell mx my := b ! cell x y])))"

definition moves :: "(string \<times> int \<times> int) list" where
  "moves = [(''up'', 0, -1), (''down'', 0, 1), (''left'', 1, 0), (''right'', -1, 0)]"

definition successors :: "board \<Rightarrow> (string \<times> board) list" where
  "successors b =
     concat (map (\<lambda>(name, dx, dy).
       case create_successor b dx dy of None \<Rightarrow> [] | Some c \<Rightarrow> [(name, c)]) moves)"

text \<open>
  Modelled from the spec: \<open>get_move(other)\<close> of module puzz returns the name of the move
  that turns the board into \<open>other\<close>, and Python's \<open>None\<close> when no single move does.
\<close>

definition get_move :: "board \<Rightarrow> board \<Rightarrow> string option" where
  "get_move b other = map_option fst (List.find (\<lambda>(name, c). c = other) (successors b))"

text \<open>A board as the program receives it: the nine tiles \<open>0\<close> to \<open>8\<close>, each once.\<close>

definition valid_board :: "board \<Rightarrow> bool" where
  "valid_board b \<longleftrightarrow> length b = 9 \<and> set b = set ''012345678''"

section \<open>The frontier (module pdqpq)\<close>

text \<open>
  Modelled from the spec: the queues of module pdqpq, with the operations \<open>add\<close>,
  \<open>pop\<close>, membership, \<open>get\<close>, \<open>remove\<close> and \<open>is_empty\<close>.  A queue is the list of
  its entries in the order of insertion, each a state with the priority it was added with.
  A priority is a Python value: a number, or \<open>None\<close> (what \<open>_heuristic\<close> returns for a tag
  it does not know).  The FIFO queue ignores the priority and pops the oldest entry.  The
  priority queue pops an entry of least priority, the oldest one among equals; the spec
  does not order \<open>None\<close>, which is here below every number.  An \<open>add\<close> without a priority
  uses the default \<open>0\<close>.
\<close>

type_synonym priority = "int option"

datatype frontier =
  FifoQueue (entries: "(board \<times> priority) list")
| PriorityQueue (entries: "(board \<times> priority) list")

definition default_priority :: priority where
  "default_priority = Some 0"

definition with_entries :: "frontier \<Rightarrow> (board \<times> priority) list \<Rightarrow> frontier" where
  "with_entries fr es = (case fr of FifoQueue _ \<Rightarrow> FifoQueue es | PriorityQueue _ \<Rightarrow> PriorityQueue es)"

definition is_empty :: "frontier \<Rightarrow> bool" where
  "is_empty fr \<longleftrightarrow> entries fr = []"

definition contains :: "frontier \<Rightarrow> board \<Rightarrow> bool" where
  "contains fr st \<longleftrightarrow> st \<in> set (map fst (entries fr))"

definition add :: "frontier \<Rightarrow> board \<Rightarrow> priority \<Rightarrow> frontier" where
  "add fr st p = with_entries fr (entries fr @ [(st, p)])"

definition get :: "frontier \<Rightarrow> board \<Rightarrow> error + priority" where
  "get fr st = (case map_of (entries fr) st of None \<Rightarrow> Inl KeyNotFoundError | Some p \<Rightarrow> Inr p)"

definition remove :: "frontier \<Rightarrow> board \<Rightarrow> frontier" where
  "remove fr st = with_entries fr (filter (\<lambda>e. fst e \<noteq> st) (entries fr))"

fun first_min :: "(board \<times> priority) list \<Rightarrow> (board \<times> priority) option" where
  "first_min [] = None"
| "first_min (e # es) =
     (case first_min es of
        None \<Rightarrow> Some e
      | Some m \<Rightarrow> if snd m < snd e then Some m else Some e)"

definition pop :: "frontier \<Rightarrow> error + (board \<times> frontier)" where
  "pop fr =
     (case fr of
        FifoQueue es \<Rightarrow>
          (case es of [] \<Rightarrow> Inl EmptyFrontierError | e # rest \<Rightarrow> Inr (fst e, FifoQueue rest))
      | PriorityQueue es \<Rightarrow>
          (case first_min es of
             None \<Rightarrow> Inl EmptyFrontierError
           | Some m \<Rightarrow> Inr (fst m, PriorityQueue (remove1 m es))))"

section \<open>The solvers (solver.py)\<close>

subsection \<open>BreadthFirstSolver: the shared bookkeeping\<close>

text \<open>
  The fields of a solver object.  \<open>parents\<close> is the dictionary from a state to its parent
  state, which is Python's \<open>None\<close> for the start state.
\<close>

record solver =
  goal :: board
  parents :: "board \<rightharpoonup> board option"
  frontier :: frontier
  explored :: "board set"
  frontier_count :: int
  expanded_count :: int

definition BreadthFirstSolver_init :: solver where
  "BreadthFirstSolver_init =
     \<lparr>goal = GOAL_STATE, parents = Map.empty, frontier = FifoQueue [], explored = {},
      frontier_count = 0, expanded_count = 0\<rparr>"

definition add_to_frontier :: "solver \<Rightarrow> board \<Rightarrow> solver" where
  "add_to_frontier s node =
     s\<lparr>frontier := add (frontier s) node default_priority,
       frontier_count := frontier_count s + 1\<rparr>"

definition expand_node :: "solver \<Rightarrow> board \<Rightarrow> (string \<times> board) list \<times> solver" where
  "expand_node s node =
     (successors node,
      s\<lparr>explored := insert node (explored s), expanded_count := expanded_count s + 1\<rparr>)"

text \<open>
  \<open>get_path\<close>: the loop walks the parent dictionary from the state to the start state.
  A state missing from the dictionary is a KeyError; on a cyclic dictionary the loop does
  not end.
\<close>

partial_function (option) get_path_loop ::
  "(board \<rightharpoonup> board option) \<Rightarrow> board option \<Rightarrow> board list \<Rightarrow> (error + board list) option" where
  [code]: "get_path_loop ps state path =
     (case state of
        None \<Rightarrow> Some (Inr path)
      | Some st \<Rightarrow>
          (case ps st of
             None \<Rightarrow> Some (Inl KeyError)
           | Some p \<Rightarrow> get_path_loop ps p (path @ [st])))"

definition get_path :: "solver \<Rightarrow> board \<Rightarrow> board list comp" where
  "get_path s state = bnd (get_path_loop (parents s) (Some state) []) (\<lambda>path. Some (Inr (rev path)))"

text \<open>
  \<open>get_cost\<close>: the body of its loop for the pair \<open>path[i-1], path[i]\<close>, and the loop.
  \<open>find\<close> returning \<open>None\<close> makes the unpacking \<open>x, y = ...\<close> a TypeError.
\<close>

definition step_cost :: "board \<Rightarrow> board \<Rightarrow> error + int" where
  "step_cost prev cur =
     (case board_find prev None of
        None \<Rightarrow> Inl TypeError
      | Some (x, y) \<Rightarrow>
          bindE (get_tile cur x y) (\<lambda>tile.
          bindE (py_int tile) (\<lambda>n. Inr (n ^ 2))))"

fun cost_loop :: "board list \<Rightarrow> int \<Rightarrow> error + int" where
  "cost_loop (prev # cur # rest) cost =
     bindE (step_cost prev cur) (\<lambda>c. cost_loop (cur # rest) (cost + c))"
| "cost_loop path cost = Inr cost"

definition get_cost :: "solver \<Rightarrow> board \<Rightarrow> int comp" where
  "get_cost s state = bnd (get_path s state) (\<lambda>path. Some (cost_loop path 0))"

text \<open>
  The result dictionary.  Its values are numbers, or the path: a list of pairs of a move
  (\<open>'start'\<close>, or what \<open>get_move\<close> returns) and a state.  In \<open>get_results_dict\<close> the
  state is a board or Python's \<open>None\<close>; the test \<open>if state:\<close> is true of every board.
\<close>

datatype rval = RInt int | RPath "(string option \<times> board) list"

type_synonym results = "string \<rightharpoonup> rval"

fun path_moves :: "board list \<Rightarrow> string option list" where
  "path_moves (prev # cur # rest) = get_move prev cur # path_moves (cur # rest)"
| "path_moves path = []"

definition get_results_dict :: "solver \<Rightarrow> board option \<Rightarrow> results comp" where
  "get_results_dict s state =
     (let results = [''frontier_count'' \<mapsto> RInt (frontier_count s),
                     ''expanded_count'' \<mapsto> RInt (expanded_count s)]
      in case state of
           None \<Rightarrow> Some (Inr results)
         | Some st \<Rightarrow>
             bnd (get_cost s st) (\<lambda>cost.
             bnd (get_path s st) (\<lambda>path.
               Some (Inr (results(''path_cost'' \<mapsto> RInt cost,
                                  ''path'' \<mapsto> RPath (zip (Some ''start'' # path_moves path) path)))))))"

text \<open>What an iteration of a search loop leaves: the result returned, or the solver to go on with.\<close>

datatype outcome = Returned results | Running solver

text \<open>\<open>BreadthFirstSolver.solve\<close>: the body of the \<open>for\<close> loop, the \<open>for\<close> loop, the \<open>while\<close> loop.\<close>

definition bfs_visit :: "solver \<Rightarrow> board \<Rightarrow> string \<times> board \<Rightarrow> outcome comp" where
  "bfs_visit s node ms =
     (let succ = snd ms in
      if \<not> contains (frontier s) succ \<and> succ \<notin> explored s then
        (let s1 = s\<lparr>parents := (parents s)(succ \<mapsto> Some node)\<rparr> in
         if succ = goal s1 then bnd (get_results_dict s1 (Some succ)) (\<lambda>r. Some (Inr (Returned r)))
         else Some (Inr (Running (add_to_frontier s1 succ))))
      else Some (Inr (Running s)))"

fun for_succs ::
  "(solver \<Rightarrow> board \<Rightarrow> string \<times> board \<Rightarrow> outcome comp) \<Rightarrow> solver \<Rightarrow> board \<Rightarrow>
   (string \<times> board) list \<Rightarrow> outcome comp" where
  "for_succs visit s node [] = Some (Inr (Running s))"
| "for_succs visit s node (ms # rest) =
     bnd (visit s node ms) (\<lambda>out.
       case out of Returned r \<Rightarrow> Some (Inr (Returned r))
                 | Running s1 \<Rightarrow> for_succs visit s1 node rest)"

definition bfs_body :: "solver \<Rightarrow> outcome comp" where
  "bfs_body s =
     bnd (Some (pop (frontier s))) (\<lambda>(node, fr).
       let (succs, s1) = expand_node (s\<lparr>frontier := fr\<rparr>) node
       in for_succs bfs_visit s1 node succs)"

partial_function (option) while_loop :: "(solver \<Rightarrow> outcome comp) \<Rightarrow> solver \<Rightarrow> results comp" where
  [code]: "while_loop body s =
     (if is_empty (frontier s) then get_results_dict s None
      else case body s of
             None \<Rightarrow> None
           | Some (Inl e) \<Rightarrow> Some (Inl e)
           | Some (Inr (Returned r)) \<Rightarrow> Some (Inr r)
           | Some (Inr (Running s1)) \<Rightarrow> while_loop body s1)"

text \<open>
  The first two statements of every \<open>solve\<close>: the start state gets no parent and is added
  to the frontier.
\<close>

definition start_search :: "solver \<Rightarrow> board \<Rightarrow> solver" where
  "start_search s start_state = add_to_frontier (s\<lparr>parents := (parents s)(start_state \<mapsto> None)\<rparr>) start_state"

definition bfs_solve :: "board \<Rightarrow> results comp" where
  "bfs_solve start_state =
     (let s = start_search BreadthFirstSolver_init start_state in
      if start_state = goal s then get_results_dict s (Some start_state)
      else while_loop bfs_body s)"

subsection \<open>UniformCostSolver\<close>

definition UniformCostSolver_init :: solver where
  "UniformCostSolver_init = BreadthFirstSolver_init\<lparr>frontier := PriorityQueue []\<rparr>"

text \<open>
  \<open>_transition_cost\<close>.  The blank is looked up before the move is tested, so a board
  without a blank is a TypeError (\<open>None[0]\<close>) for every move.  For a move name it does not
  know the function prints a message and returns Python's \<open>None\<close>.
\<close>

definition tile_cost :: "board \<Rightarrow> int \<Rightarrow> int \<Rightarrow> error + int option" where
  "tile_cost state x y = bindE (get_tile state x y) (\<lambda>tile. bindE (py_int tile) (\<lambda>n. Inr (Some (n ^ 2))))"

definition transition_cost :: "board \<Rightarrow> string \<Rightarrow> error + int option" where
  "transition_cost state move =
     (case board_find state (Some CHR ''0'') of
        None \<Rightarrow> Inl TypeError
      | Some (x, y) \<Rightarrow>
          if move = ''up'' then tile_cost state x (y - 1)
          else if move = ''down'' then tile_cost state x (y + 1)
          else if move = ''left'' then tile_cost state (x + 1) y
          else if move = ''right'' then tile_cost state (x - 1) y
          else Inr None)"

text \<open>Python's \<open>a + b\<close> and \<open>a > b\<close>, \<open>a < b\<close> where one side may be \<open>None\<close>: a TypeError then.\<close>

definition py_add :: "int \<Rightarrow> int option \<Rightarrow> error + int" where
  "py_add a b = (case b of None \<Rightarrow> Inl TypeError | Some n \<Rightarrow> Inr (a + n))"

definition py_gt :: "int option \<Rightarrow> int \<Rightarrow> error + bool" where
  "py_gt a b = (case a of None \<Rightarrow> Inl TypeError | Some n \<Rightarrow> Inr (n > b))"

definition py_lt :: "int \<Rightarrow> int option \<Rightarrow> error + bool" where
  "py_lt a b = (case b of None \<Rightarrow> Inl TypeError | Some n \<Rightarrow> Inr (a < n))"

definition ucost_visit :: "solver \<Rightarrow> board \<Rightarrow> string \<times> board \<Rightarrow> outcome comp" where
  "ucost_visit s node ms =
     (let move = fst ms; succ = snd ms in
      bnd (get_cost s node) (\<lambda>c.
      bnd (Some (bindE (transition_cost node move) (py_add c))) (\<lambda>alt_cost.
        if succ \<in> explored s then Some (Inr (Running s))
        else if contains (frontier s) succ then
          bnd (Some (get (frontier s) succ)) (\<lambda>cur_front_cost.
          bnd (Some (py_gt cur_front_cost alt_cost)) (\<lambda>cheaper.
            if cheaper then
              (let s1 = s\<lparr>parents := (parents s)(succ \<mapsto> Some node)\<rparr>;
                   s2 = s1\<lparr>frontier := remove (frontier s1) succ\<rparr>
               in bnd (get_cost s2 succ) (\<lambda>c2.
                    Some (Inr (Running (s2\<lparr>frontier := add (frontier s2) succ (Some c2)\<rparr>)))))
            else Some (Inr (Running s))))
        else
          (let s1 = s\<lparr>parents := (parents s)(succ \<mapsto> Some node)\<rparr>;
               s2 = s1\<lparr>frontier_count := frontier_count s1 + 1\<rparr>
           in bnd (get_cost s2 succ) (\<lambda>c2.
                Some (Inr (Running (s2\<lparr>frontier := add (frontier s2) succ (Some c2)\<rparr>))))))))"

text \<open>
  The body of the \<open>while\<close> loop of \<open>UniformCostSolver.solve\<close>, \<open>GreedySolver.solve\<close> and
  \<open>AStarSolver.solve\<close>, which differ in the body of the \<open>for\<close> loop only: pop, expand, test
  the popped node, visit the successors.
\<close>

definition pop_body ::
  "(solver \<Rightarrow> board \<Rightarrow> string \<times> board \<Rightarrow> outcome comp) \<Rightarrow> solver \<Rightarrow> outcome comp" where
  "pop_body visit s =
     bnd (Some (pop (frontier s))) (\<lambda>(node, fr).
       let (succs, s1) = expand_node (s\<lparr>frontier := fr\<rparr>) node in
       if node = goal s1 then bnd (get_results_dict s1 (Some node)) (\<lambda>r. Some (Inr (Returned r)))
       else for_succs visit s1 node succs)"

definition ucost_solve :: "board \<Rightarrow> results comp" where
  "ucost_solve start_state =
     (let s = start_search UniformCostSolver_init start_state in
      if start_state = goal s then get_results_dict s (Some start_state)
      else while_loop (pop_body ucost_visit) s)"

subsection \<open>GreedySolver and the heuristics\<close>

definition GreedySolver_init :: solver where
  "GreedySolver_init = UniformCostSolver_init\<lparr>frontier := PriorityQueue []\<rparr>"

text \<open>The two nested loops \<open>for x in range(0,3): for y in range(0,3)\<close> over an accumulator.\<close>

definition for_cells :: "(int \<Rightarrow> int \<Rightarrow> int \<Rightarrow> error + int) \<Rightarrow> int \<Rightarrow> error + int" where
  "for_cells body acc = for_each [0, 1, 2] (\<lambda>x. for_each [0, 1, 2] (\<lambda>y. body x y)) acc"

definition misplaced_cell :: "board \<Rightarrow> int \<Rightarrow> int \<Rightarrow> int \<Rightarrow> error + int" where
  "misplaced_cell state x y num_misplaced_tiles =
     bindE (get_tile state x y) (\<lambda>tile.
     bindE (py_int tile) (\<lambda>num_tile.
       if num_tile \<noteq> 0 then
         bindE (get_tile state x y) (\<lambda>t1.
         bindE (get_tile GOAL_STATE x y) (\<lambda>t2.
           Inr (if t1 \<noteq> t2 then num_misplaced_tiles + 1 else num_misplaced_tiles)))
       else Inr num_misplaced_tiles))"

definition num_misplaced_tiles :: "board \<Rightarrow> error + int" where
  "num_misplaced_tiles state = for_cells (misplaced_cell state) 0"

text \<open>
  \<open>GOAL_STATE.find(cur_tile)[0]\<close> is a TypeError when the goal does not hold the tile.
\<close>

definition manhattan_cell :: "board \<Rightarrow> int \<Rightarrow> int \<Rightarrow> int \<Rightarrow> error + int" where
  "manhattan_cell state x y manhattan_distance =
     bindE (get_tile state x y) (\<lambda>cur_tile.
       case board_find GOAL_STATE (Some cur_tile) of
         None \<Rightarrow> Inl TypeError
       | Some (x_coords, y_coords) \<Rightarrow>
           bindE (py_int cur_tile) (\<lambda>num_tile.
             Inr (if num_tile \<noteq> 0
                  then manhattan_distance + (\<bar>x - x_coords\<bar> + \<bar>y - y_coords\<bar>)
                  else manhattan_distance)))"

definition manhattan_distance :: "board \<Rightarrow> error + int" where
  "manhattan_distance state = for_cells (manhattan_cell state) 0"

definition worse_cell :: "board \<Rightarrow> int \<Rightarrow> int \<Rightarrow> int \<Rightarrow> error + int" where
  "worse_cell state x y weighted_distance =
     bindE (get_tile state x y) (\<lambda>cur_tile.
       case board_find GOAL_STATE (Some cur_tile) of
         None \<Rightarrow> Inl TypeError
       | Some (x_coords, y_coords) \<Rightarrow>
           (let diff = \<bar>x - x_coords\<bar> + \<bar>y - y_coords\<bar> in
            bindE (py_int cur_tile) (\<lambda>num_tile.
              Inr (weighted_distance + num_tile ^ 2 * diff))))"

definition worse_manhattan :: "board \<Rightarrow> error + int" where
  "worse_manhattan state = for_cells (worse_cell state) 0"

text \<open>
  \<open>_heuristic\<close>: for a tag other than \<open>h1\<close>, \<open>h2\<close>, \<open>h3\<close> it prints a message and
  returns Python's \<open>None\<close>.  The tag itself is \<open>None\<close> when the flavor has no dash.
\<close>

definition heuristic :: "board \<Rightarrow> string option \<Rightarrow> error + int option" where
  "heuristic state heur =
     (if heur = Some ''h1'' then bindE (num_misplaced_tiles state) (\<lambda>n. Inr (Some n))
      else if heur = Some ''h2'' then bindE (manhattan_distance state) (\<lambda>n. Inr (Some n))
      else if heur = Some ''h3'' then bindE (worse_manhattan state) (\<lambda>n. Inr (Some n))
      else Inr None)"

definition greedy_visit :: "string option \<Rightarrow> solver \<Rightarrow> board \<Rightarrow> string \<times> board \<Rightarrow> outcome comp" where
  "greedy_visit heur s node ms =
     (let succ = snd ms in
      if \<not> contains (frontier s) succ \<and> succ \<notin> explored s then
        bnd (Some (heuristic succ heur)) (\<lambda>h.
          let s1 = s\<lparr>parents := (parents s)(succ \<mapsto> Some node)\<rparr>;
              s2 = s1\<lparr>frontier_count := frontier_count s1 + 1\<rparr>
          in Some (Inr (Running (s2\<lparr>frontier := add (frontier s2) succ h\<rparr>))))
      else Some (Inr (Running s)))"

definition greedy_solve :: "board \<Rightarrow> string option \<Rightarrow> results comp" where
  "greedy_solve start_state heur =
     (let s = start_search GreedySolver_init start_state in
      if start_state = goal s then get_results_dict s (Some start_state)
      else while_loop (pop_body (greedy_visit heur)) s)"

subsection \<open>AStarSolver\<close>

definition AStarSolver_init :: solver where
  "AStarSolver_init = GreedySolver_init\<lparr>frontier := PriorityQueue []\<rparr>"

definition astar_visit :: "string option \<Rightarrow> solver \<Rightarrow> board \<Rightarrow> string \<times> board \<Rightarrow> outcome comp" where
  "astar_visit heur s node ms =
     (let move = fst ms; succ = snd ms in
      if succ \<notin> explored s then
        if contains (frontier s) succ then
          bnd (Some (heuristic succ heur)) (\<lambda>succ_heuristic.
          bnd (Some (transition_cost node move)) (\<lambda>trans_to_succ.
          bnd (get_cost s node) (\<lambda>c.
          bnd (Some (bindE (py_add c succ_heuristic) (\<lambda>a. py_add a trans_to_succ))) (\<lambda>alt_priority.
          bnd (Some (get (frontier s) succ)) (\<lambda>cur.
          bnd (Some (py_lt alt_priority cur)) (\<lambda>better.
            if better then
              (let s1 = s\<lparr>parents := (parents s)(succ \<mapsto> Some node)\<rparr>;
                   s2 = s1\<lparr>frontier := remove (frontier s1) succ\<rparr>
               in Some (Inr (Running (s2\<lparr>frontier := add (frontier s2) succ (Some alt_priority)\<rparr>))))
            else Some (Inr (Running s))))))))
        else
          (let s1 = s\<lparr>parents := (parents s)(succ \<mapsto> Some node)\<rparr> in
           bnd (get_cost s1 succ) (\<lambda>cost_to_succ.
           bnd (Some (heuristic succ heur)) (\<lambda>succ_heuristic.
           bnd (Some (py_add cost_to_succ succ_heuristic)) (\<lambda>succ_priority.
             let s2 = s1\<lparr>frontier_count := frontier_count s1 + 1\<rparr>
             in Some (Inr (Running (s2\<lparr>frontier := add (frontier s2) succ (Some succ_priority)\<rparr>)))))))
      else Some (Inr (Running s)))"

definition astar_solve :: "board \<Rightarrow> string option \<Rightarrow> results comp" where
  "astar_solve start_state heur =
     (let s = start_search AStarSolver_init start_state in
      if start_state = goal s then get_results_dict s (Some start_state)
      else while_loop (pop_body (astar_visit heur)) s)"

subsection \<open>solve\_puzzle\<close>

text \<open>Python's \<open>str.split\<close> at a separator character: one more part than separators.\<close>

fun split_at :: "char \<Rightarrow> string \<Rightarrow> string list" where
  "split_at d [] = [[]]"
| "split_at d (c # cs) =
     (if c = d then [] # split_at d cs
      else case split_at d cs of [] \<Rightarrow> [[c]] | p # ps \<Rightarrow> (c # p) # ps)"

text \<open>Unpacking \<open>strat, heur = flavor.split('-')\<close> is a ValueError unless there are two parts.\<close>

definition split_flavor :: "string \<Rightarrow> error + (string \<times> string option)" where
  "split_flavor flavor =
     (if CHR ''-'' \<in> set flavor then
        (case split_at CHR ''-'' flavor of [strat, heur] \<Rightarrow> Inr (strat, Some heur) | _ \<Rightarrow> Inl ValueError)
      else Inr (flavor, None))"

definition solve_puzzle :: "board \<Rightarrow> string \<Rightarrow> results comp" where
  "solve_puzzle start_state flavor =
     bnd (Some (split_flavor flavor)) (\<lambda>(strat, heur).
       if strat = ''bfs'' then bfs_solve start_state
       else if strat = ''ucost'' then ucost_solve start_state
       else if strat = ''greedy'' then greedy_solve start_state heur
       else if strat = ''astar'' then astar_solve start_state heur
       else Some (Inl ValueError))"

section \<open>Notions of the specification\<close>

text \<open>
  The parent dictionary leads from a state to the start state: \<open>chain ps st path\<close> holds
  when \<open>path\<close> lists the states from the one without a parent down to \<open>st\<close>, each the
  parent of the next.
\<close>

inductive chain :: "(board \<rightharpoonup> board option) \<Rightarrow> board \<Rightarrow> board list \<Rightarrow> bool"
  for ps :: "board \<rightharpoonup> board option" where
  root: "ps st = Some None \<Longrightarrow> chain ps st [st]"
| link: "ps st = Some (Some p) \<Longrightarrow> chain ps p path \<Longrightarrow> chain ps st (path @ [st])"

text \<open>The nine coordinates, in the order in which the heuristics visit them.\<close>

definition all_cells :: "(int \<times> int) list" where
  "all_cells = [(0, 0), (0, 1), (0, 2), (1, 0), (1, 1), (1, 2), (2, 0), (2, 1), (2, 2)]"

text \<open>The numeric label of a tile, and the coordinate of a tile in the goal state.\<close>

definition tile_value :: "tile \<Rightarrow> int" where
  "tile_value c = (case py_int c of Inl e \<Rightarrow> 0 | Inr n \<Rightarrow> n)"

definition goal_coordinate :: "tile \<Rightarrow> int \<times> int" where
  "goal_coordinate t = (case board_find GOAL_STATE (Some t) of None \<Rightarrow> (0, 0) | Some p \<Rightarrow> p)"

text \<open>The Manhattan distance of the tile at \<open>(x, y)\<close> from its goal coordinate.\<close>

definition goal_distance :: "board \<Rightarrow> int \<Rightarrow> int \<Rightarrow> int" where
  "goal_distance b x y = (case goal_coordinate (b ! cell x y) of (gx, gy) \<Rightarrow> \<bar>x - gx\<bar> + \<bar>y - gy\<bar>)"

text \<open>
  The heuristic h3 in the words of the specification: the sum over the non-blank tiles of
  the square of the tile value times the Manhattan distance of the tile.
\<close>

definition h3_spec :: "board \<Rightarrow> int" where
  "h3_spec b =
     (\<Sum>(x, y) \<leftarrow> filter (\<lambda>(x, y). b ! cell x y \<noteq> blank) all_cells.
        (tile_value (b ! cell x y)) ^ 2 * goal_distance b x y)"

text \<open>
  The A* solver with heuristic h1 after the first iteration of the search from
  \<open>102345678\<close>: the start state is explored, its three successors are in the frontier.
\<close>

definition astar_after_first :: solver where
  "astar_after_first =
     \<lparr>goal = GOAL_STATE,
      parents = [''102345678'' \<mapsto> None, ''142305678'' \<mapsto> Some ''102345678'',
                 ''120345678'' \<mapsto> Some ''102345678'', ''012345678'' \<mapsto> Some ''102345678''],
      frontier = PriorityQueue [(''142305678'', Some 18), (''120345678'', Some 6), (''012345678'', Some 1)],
      explored = {''102345678''},
      frontier_count = 4, expanded_count = 1\<rparr>"

text \<open>
  The Greedy solver with the unknown heuristic tag \<open>h4\<close> after the first iteration of the
  search from \<open>102345678\<close>.
\<close>

definition greedy_after_first :: solver where
  "greedy_after_first =
     \<lparr>goal = GOAL_STATE,
      parents = [''102345678'' \<mapsto> None, ''142305678'' \<mapsto> Some ''102345678'',
                 ''120345678'' \<mapsto> Some ''102345678'', ''012345678'' \<mapsto> Some ''102345678''],
      frontier = PriorityQueue [(''142305678'', None), (''120345678'', None), (''012345678'', None)],
      explored = {''102345678''},
      frontier_count = 4, expanded_count = 1\<rparr>"

text \<open>The states in the frontier.\<close>

definition keys :: "frontier \<Rightarrow> board set" where
  "keys fr = set (map fst (entries fr))"

text \<open>
  The states that were added to the frontier at some point: a state leaves the frontier
  when it is popped, which puts it in the explored set, or when it is removed to be added
  again with another priority.
\<close>

definition ever_added :: "solver \<Rightarrow> board set" where
  "ever_added s = explored s \<union> keys (frontier s)"

text \<open>
  The invariant of the counters: the frontier holds each state once, no explored state is
  in the frontier, \<open>expanded_count\<close> is the number of explored states and
  \<open>frontier_count\<close> the number of states ever added to the frontier.
\<close>

definition counters_inv :: "solver \<Rightarrow> bool" where
  "counters_inv s \<longleftrightarrow>
     finite (explored s) \<and> distinct (map fst (entries (frontier s)))
     \<and> explored s \<inter> keys (frontier s) = {}
     \<and> expanded_count s = int (card (explored s))
     \<and> frontier_count s = int (card (ever_added s))"

text \<open>A result dictionary with both counters, \<open>0 \<le> expanded_count \<le> frontier_count\<close>.\<close>

definition result_ok :: "results \<Rightarrow> bool" where
  "result_ok r \<longleftrightarrow>
     (\<exists>fc ec. r ''frontier_count'' = Some (RInt fc) \<and> r ''expanded_count'' = Some (RInt ec)
        \<and> 0 \<le> ec \<and> ec \<le> fc)"

text \<open>What an iteration, or a part of one, keeps of the invariant of the counters.\<close>

definition inv_step :: "solver \<Rightarrow> outcome comp \<Rightarrow> bool" where
  "inv_step s out \<longleftrightarrow>
     (\<forall>s'. out = Some (Inr (Running s')) \<longrightarrow> counters_inv s' \<and> ever_added s \<subseteq> ever_added s')
     \<and> (\<forall>r. out = Some (Inr (Returned r)) \<longrightarrow> result_ok r)"

text \<open>
  The uniform-cost solver after the first iteration of the search from \<open>102345678\<close>.
\<close>

definition ucost_after_first :: solver where
  "ucost_after_first =
     \<lparr>goal = GOAL_STATE,
      parents = [''102345678'' \<mapsto> None, ''142305678'' \<mapsto> Some ''102345678'',
                 ''120345678'' \<mapsto> Some ''102345678'', ''012345678'' \<mapsto> Some ''102345678''],
      frontier = PriorityQueue [(''142305678'', Some 16), (''120345678'', Some 4), (''012345678'', Some 1)],
      explored = {''102345678''},
      frontier_count = 4, expanded_count = 1\<rparr>"

text \<open>
  The path cost in the words of the specification.  \<open>moved_tile p q\<close> is the tile that
  occupies, in \<open>q\<close>, the coordinate that the blank occupied in \<open>p\<close>; the cost of a path is
  the sum, over its consecutive pairs, of the square of the number on that tile.
\<close>

definition moved_tile :: "board \<Rightarrow> board \<Rightarrow> tile" where
  "moved_tile p q = (case board_find p None of None \<Rightarrow> blank | Some (x, y) \<Rightarrow> q ! cell x y)"

fun path_cost_spec :: "board list \<Rightarrow> int" where
  "path_cost_spec (p # q # rest) = (tile_value (moved_tile p q)) ^ 2 + path_cost_spec (q # rest)"
| "path_cost_spec path = 0"

text \<open>
  The invariant of the parent dictionary: it holds every state ever added to the frontier;
  from each of its states the parents lead to the start state along valid boards, all of
  them explored but, at most, the state itself; and each state is a successor of its parent.
\<close>

definition tree_inv :: "solver \<Rightarrow> bool" where
  "tree_inv s \<longleftrightarrow>
     ever_added s \<subseteq> dom (parents s)
     \<and> (\<forall>st \<in> dom (parents s). \<exists>path. chain (parents s) st path
            \<and> set (butlast path) \<subseteq> explored s \<and> (\<forall>b \<in> set path. valid_board b))
     \<and> (\<forall>st p. parents s st = Some (Some p) \<longrightarrow> (\<exists>move. (move, st) \<in> set (successors p)))"

text \<open>
  The invariant inside the \<open>for\<close> loop over the successors of \<open>node\<close>: the node was
  popped and expanded.
\<close>

definition visiting :: "solver \<Rightarrow> board \<Rightarrow> bool" where
  "visiting s node \<longleftrightarrow> tree_inv s \<and> node \<in> explored s \<and> valid_board node"

text \<open>An outcome that, if the search goes on, leaves a solver with the property \<open>I\<close>.\<close>

definition running_sat :: "(solver \<Rightarrow> bool) \<Rightarrow> outcome comp \<Rightarrow> bool" where
  "running_sat I out \<longleftrightarrow> (\<forall>s'. out = Some (Inr (Running s')) \<longrightarrow> I s')"

text \<open>
  The parity of a board.  \<open>inversions\<close> counts the pairs of tiles of a list that stand in
  the wrong order, a tile before a smaller one; a board is odd when its tiles, the blank
  left out, have an odd number of such pairs.  The goal state has none.
\<close>

fun inversions :: "tile list \<Rightarrow> nat" where
  "inversions [] = 0"
| "inversions (x # xs) = length (filter (\<lambda>y. (of_char y :: nat) < of_char x) xs) + inversions xs"

definition odd_board :: "board \<Rightarrow> bool" where
  "odd_board b \<longleftrightarrow> odd (inversions (filter (\<lambda>t. t \<noteq> blank) b))"

text \<open>
  A run of the \<open>while\<close> loop of a \<open>solve\<close> method: \<open>iterate n body s = Some s'\<close> holds
  when the loop, entered with the solver \<open>s\<close>, has run \<open>n\<close> iterations and is back at
  its test with the solver \<open>s'\<close>: each of the \<open>n\<close> iterations found the frontier
  non-empty and ended without a result and without an exception.
\<close>

fun iterate :: "nat \<Rightarrow> (solver \<Rightarrow> outcome comp) \<Rightarrow> solver \<Rightarrow> solver option" where
  "iterate 0 body s = Some s"
| "iterate (Suc n) body s =
     (if is_empty (frontier s) then None
      else case body s of Some (Inr (Running s1)) \<Rightarrow> iterate n body s1 | _ \<Rightarrow> None)"

text \<open>A frontier in which every priority is a number.\<close>

definition numeric :: "frontier \<Rightarrow> bool" where
  "numeric fr \<longleftrightarrow> (\<forall>e \<in> set (entries fr). snd e \<noteq> None)"

text \<open>
  The invariant of a search that starts at an odd board: the invariants of the counters and
  of the parent dictionary, the goal is the goal state, every state of the parent
  dictionary is odd, and the priorities are numbers.
\<close>

definition searching :: "solver \<Rightarrow> bool" where
  "searching s \<longleftrightarrow>
     counters_inv s \<and> tree_inv s \<and> goal s = GOAL_STATE
     \<and> (\<forall>b \<in> dom (parents s). odd_board b) \<and> numeric (frontier s)"

text \<open>
  The visit of the successor \<open>succ\<close> neither returns a result nor raises: the search goes
  on with a solver that explored the same states and knows at most one more state.
\<close>

definition goes_on :: "solver \<Rightarrow> board \<Rightarrow> outcome comp \<Rightarrow> bool" where
  "goes_on s succ out \<longleftrightarrow>
     (\<exists>s'. out = Some (Inr (Running s')) \<and> explored s' = explored s \<and> goal s' = goal s
        \<and> dom (parents s') \<subseteq> insert succ (dom (parents s)) \<and> numeric (frontier s'))"

section \<open>Basic facts\<close>

lemma bindE_simps:
  "bindE (Inl e) f = Inl e"
  "bindE (Inr a) f = f a"
  by (simp_all add: bindE_def)

lemma bnd_simps:
  "bnd None f = None"
  "bnd (Some (Inl e)) f = Some (Inl e)"
  "bnd (Some (Inr a)) f = f a"
  by (simp_all add: bnd_def)

lemma bnd_eq_Some_Inr:
  "bnd m f = Some (Inr b) \<longleftrightarrow> (\<exists>a. m = Some (Inr a) \<and> f a = Some (Inr b))"
  by (auto simp: bnd_def split: option.splits sum.splits)

lemma get_path_loop_chain:
  "chain ps st path \<Longrightarrow> get_path_loop ps (Some st) acc = Some (Inr (acc @ rev path))"
proof (induction arbitrary: acc rule: chain.induct)
  case (root st)
  then show ?case
    by (subst get_path_loop.simps, simp, subst get_path_loop.simps, simp)
next
  case (link st p path)
  from link.hyps(1) have "get_path_loop ps (Some st) acc = get_path_loop ps (Some p) (acc @ [st])"
    by (subst get_path_loop.simps) simp
  with link.IH [of "acc @ [st]"] show ?case by simp
qed

lemma get_path_chain: "chain (parents s) st path \<Longrightarrow> get_path s st = Some (Inr path)"
  by (simp add: get_path_def get_path_loop_chain bnd_simps)

lemma get_cost_chain: "chain (parents s) st path \<Longrightarrow> get_cost s st = Some (cost_loop path 0)"
  by (simp add: get_cost_def get_path_chain bnd_simps)

lemma start_search_chain: "chain (parents (start_search s0 st)) st [st]"
  by (rule chain.root) (simp add: start_search_def add_to_frontier_def)

lemma get_results_dict_start:
  "get_results_dict (start_search s0 st) (Some st) =
     Some (Inr [''frontier_count'' \<mapsto> RInt (frontier_count s0 + 1),
                ''expanded_count'' \<mapsto> RInt (expanded_count s0),
                ''path_cost'' \<mapsto> RInt 0,
                ''path'' \<mapsto> RPath [(Some ''start'', st)]])"
proof -
  have "get_path (start_search s0 st) st = Some (Inr [st])"
    by (rule get_path_chain) (rule start_search_chain)
  moreover have "get_cost (start_search s0 st) st = Some (Inr 0)"
    using get_cost_chain [OF start_search_chain, of s0 st] by simp
  ultimately show ?thesis
    by (simp add: get_results_dict_def bnd_simps Let_def start_search_def add_to_frontier_def)
qed

lemma init_simps:
  "goal BreadthFirstSolver_init = GOAL_STATE"
  "goal UniformCostSolver_init = GOAL_STATE"
  "goal GreedySolver_init = GOAL_STATE"
  "goal AStarSolver_init = GOAL_STATE"
  "frontier_count BreadthFirstSolver_init = 0"
  "frontier_count UniformCostSolver_init = 0"
  "frontier_count GreedySolver_init = 0"
  "frontier_count AStarSolver_init = 0"
  "expanded_count BreadthFirstSolver_init = 0"
  "expanded_count UniformCostSolver_init = 0"
  "expanded_count GreedySolver_init = 0"
  "expanded_count AStarSolver_init = 0"
  by (simp_all add: BreadthFirstSolver_init_def UniformCostSolver_init_def GreedySolver_init_def
      AStarSolver_init_def)

lemma goal_start_search: "goal (start_search s0 st) = goal s0"
  by (simp add: start_search_def add_to_frontier_def)

section \<open>The start state is the goal state\<close>

text \<open>
  Claim C9.  For each of the four strategies, and for Greedy and A* with any heuristic tag,
  a search that starts at the goal state returns a success result: the path is the single
  pair \<open>('start', start_state)\<close>, the path cost is 0, one state was added to the frontier
  and none was expanded.
\<close>

theorem solve_start_is_goal:
  "bfs_solve GOAL_STATE =
     Some (Inr [''frontier_count'' \<mapsto> RInt 1, ''expanded_count'' \<mapsto> RInt 0,
                ''path_cost'' \<mapsto> RInt 0, ''path'' \<mapsto> RPath [(Some ''start'', GOAL_STATE)]])
   \<and> ucost_solve GOAL_STATE =
     Some (Inr [''frontier_count'' \<mapsto> RInt 1, ''expanded_count'' \<mapsto> RInt 0,
                ''path_cost'' \<mapsto> RInt 0, ''path'' \<mapsto> RPath [(Some ''start'', GOAL_STATE)]])
   \<and> greedy_solve GOAL_STATE heur =
     Some (Inr [''frontier_count'' \<mapsto> RInt 1, ''expanded_count'' \<mapsto> RInt 0,
                ''path_cost'' \<mapsto> RInt 0, ''path'' \<mapsto> RPath [(Some ''start'', GOAL_STATE)]])
   \<and> astar_solve GOAL_STATE heur =
     Some (Inr [''frontier_count'' \<mapsto> RInt 1, ''expanded_count'' \<mapsto> RInt 0,
                ''path_cost'' \<mapsto> RInt 0, ''path'' \<mapsto> RPath [(Some ''start'', GOAL_STATE)]])"
  by (simp add: bfs_solve_def ucost_solve_def greedy_solve_def astar_solve_def Let_def
      goal_start_search init_simps get_results_dict_start)

section \<open>The heuristic h3\<close>

lemma index_of_Some: "index_of xs a = Some i \<Longrightarrow> i < length xs \<and> xs ! i = a"
  by (induction xs arbitrary: i) (auto split: if_splits)

lemma index_of_mem: "a \<in> set xs \<Longrightarrow> \<exists>i. index_of xs a = Some i"
  by (induction xs) auto

lemma cell_range:
  "(x, y) \<in> set all_cells \<Longrightarrow> 0 \<le> x \<and> x < 3 \<and> 0 \<le> y \<and> y < 3 \<and> cell x y < 9"
  by (auto simp: all_cells_def cell_def)

lemma get_tile_cell:
  "(x, y) \<in> set all_cells \<Longrightarrow> length b = 9 \<Longrightarrow> get_tile b x y = Inr (b ! cell x y)"
  using cell_range [of x y] by (simp add: get_tile_def)

lemma digit_cases:
  assumes "t \<in> set ''012345678''"
  obtains "t = CHR ''0''" | "t = CHR ''1''" | "t = CHR ''2''" | "t = CHR ''3''" | "t = CHR ''4''"
    | "t = CHR ''5''" | "t = CHR ''6''" | "t = CHR ''7''" | "t = CHR ''8''"
  using assms by auto

lemma py_int_digit: "t \<in> set ''012345678'' \<Longrightarrow> py_int t = Inr (tile_value t)"
  by (erule digit_cases) (simp_all add: py_int_def tile_value_def)

lemma find_goal_digit:
  "t \<in> set ''012345678'' \<Longrightarrow> board_find GOAL_STATE (Some t) = Some (goal_coordinate t)"
  by (erule digit_cases) (simp_all add: goal_coordinate_def board_find_def GOAL_STATE_def)

lemma tile_value_blank: "tile_value blank = 0"
  by (simp add: tile_value_def blank_def py_int_def)

lemma worse_cell_value:
  assumes "(x, y) \<in> set all_cells" "length b = 9" "b ! cell x y \<in> set ''012345678''"
  shows "worse_cell b x y acc =
           Inr (acc + (if b ! cell x y \<noteq> blank
                       then (tile_value (b ! cell x y)) ^ 2 * goal_distance b x y else 0))"
  using assms
  by (auto simp: worse_cell_def get_tile_cell bindE_simps find_goal_digit py_int_digit
      goal_distance_def Let_def tile_value_blank split: prod.splits)

lemma valid_board_nth:
  "valid_board b \<Longrightarrow> (x, y) \<in> set all_cells \<Longrightarrow> b ! cell x y \<in> set ''012345678''"
  using cell_range [of x y] nth_mem [of "cell x y" b] by (simp add: valid_board_def)

text \<open>
  Claim C4.  On every board that holds the tiles \<open>0\<close> to \<open>8\<close>, \<open>_worse_manhattan\<close> returns
  the sum, over the non-blank tiles, of the square of the tile value times the Manhattan
  distance of the tile from its goal coordinate.  The loop visits the blank too, and the
  blank leaves the running sum as it is.
\<close>

theorem worse_manhattan_spec:
  assumes "valid_board b"
  shows "worse_manhattan b = Inr (h3_spec b)
         \<and> (\<forall>(x, y) \<in> set all_cells. b ! cell x y = blank \<longrightarrow>
               (\<forall>acc. worse_cell b x y acc = Inr acc))"
proof -
  have len: "length b = 9" using assms by (simp add: valid_board_def)
  have c: "\<And>x y acc. (x, y) \<in> set all_cells \<Longrightarrow> worse_cell b x y acc =
           Inr (acc + (if b ! cell x y \<noteq> blank
                       then (tile_value (b ! cell x y)) ^ 2 * goal_distance b x y else 0))"
    by (rule worse_cell_value [OF _ len valid_board_nth [OF assms]])
  have "worse_manhattan b = Inr (\<Sum>(x, y) \<leftarrow> all_cells. if b ! cell x y \<noteq> blank
                       then (tile_value (b ! cell x y)) ^ 2 * goal_distance b x y else 0)"
    by (simp add: worse_manhattan_def for_cells_def bindE_simps c all_cells_def)
  also have "\<dots> = Inr (h3_spec b)"
    by (simp add: h3_spec_def sum_list_map_filter' case_prod_unfold)
  finally have "worse_manhattan b = Inr (h3_spec b)" .
  moreover have "\<forall>(x, y) \<in> set all_cells. b ! cell x y = blank \<longrightarrow>
               (\<forall>acc. worse_cell b x y acc = Inr acc)"
    using c by auto
  ultimately show ?thesis by blast
qed

theorem worse_manhattan_spec_witness:
  "valid_board ''142375608''
   \<and> worse_manhattan ''142375608'' = Inr (h3_spec ''142375608'')
   \<and> h3_spec ''142375608'' = 66
   \<and> (1, 0) \<in> set all_cells \<and> ''142375608'' ! cell 1 0 = blank
   \<and> worse_cell ''142375608'' 1 0 7 = Inr 7"
proof -
  have v: "valid_board ''142375608''"
    by (auto simp: valid_board_def)
  have m: "(1, 0) \<in> set all_cells" "''142375608'' ! cell 1 0 = blank"
    by (simp_all add: all_cells_def cell_def blank_def)
  have h: "h3_spec ''142375608'' = 66"
    by (simp add: h3_spec_def all_cells_def cell_def blank_def tile_value_def py_int_def
        goal_distance_def goal_coordinate_def board_find_def GOAL_STATE_def)
  from worse_manhattan_spec [OF v] v m h show ?thesis
    by auto
qed

section \<open>The cost of a move\<close>

lemma valid_board_distinct: "valid_board b \<Longrightarrow> distinct b"
proof -
  assume v: "valid_board b"
  have "card (set ''012345678'') = 9" by simp
  with v have "card (set b) = length b" by (simp add: valid_board_def)
  then show "distinct b" by (rule card_distinct)
qed

lemma successors_mem:
  "(move, succ) \<in> set (successors b) \<Longrightarrow>
   \<exists>dx dy. (move, dx, dy) \<in> set moves \<and> create_successor b dx dy = Some succ"
proof -
  assume "(move, succ) \<in> set (successors b)"
  then obtain m where m: "m \<in> set moves"
    and c: "(move, succ) \<in> set (case m of (name, dx, dy) \<Rightarrow>
              case create_successor b dx dy of None \<Rightarrow> [] | Some c \<Rightarrow> [(name, c)])"
    unfolding successors_def by auto
  obtain name dx dy where e: "m = (name, dx, dy)" by (cases m) auto
  from c e have "name = move \<and> create_successor b dx dy = Some succ"
    by (simp split: option.splits)
  with m e show ?thesis by blast
qed

lemma valid_board_blank:
  assumes "valid_board b"
  obtains i where "i < 9" "b ! i = blank" "index_of b blank = Some i"
    "board_find b None = Some (int (i mod 3), 2 - int (i div 3))"
proof -
  have "blank \<in> set ''012345678''" by (simp add: blank_def)
  with assms have "blank \<in> set b" unfolding valid_board_def by simp
  then have "\<exists>i. index_of b blank = Some i" by (rule index_of_mem)
  then obtain i where i: "index_of b blank = Some i" ..
  from index_of_Some [OF i] have n: "i < length b" "b ! i = blank" by simp_all
  from n(1) assms have l: "i < 9" by (simp add: valid_board_def)
  have f: "board_find b None = Some (int (i mod 3), 2 - int (i div 3))"
    by (simp add: board_find_def i)
  from l n(2) i f show thesis by (rule that)
qed

lemma cell_of_index: "cell (int (i mod 3)) (2 - int (i div 3)) = i"
proof -
  have "int (3 * (i div 3) + i mod 3) = int i"
    by (simp only: mult_div_mod_eq)
  then have "3 * int (i div 3) + int (i mod 3) = int i"
    by (simp only: of_nat_add of_nat_mult of_nat_numeral)
  then have "6 - 3 * (2 - int (i div 3)) + int (i mod 3) = int i"
    by simp
  then show ?thesis unfolding cell_def by simp
qed

lemma cell_eq_iff:
  assumes "0 \<le> x" "x < 3" "0 \<le> x'" "x' < 3" "0 \<le> y" "y < 3" "0 \<le> y'" "y' < 3"
  shows "cell x y = cell x' y' \<longleftrightarrow> x = x' \<and> y = y'"
proof -
  have "x = 0 \<or> x = 1 \<or> x = 2" "x' = 0 \<or> x' = 1 \<or> x' = 2"
    "y = 0 \<or> y = 1 \<or> y = 2" "y' = 0 \<or> y' = 1 \<or> y' = 2"
    using assms by auto
  then show ?thesis by (elim disjE; simp add: cell_def)
qed

lemma cell_less: "0 \<le> x \<Longrightarrow> x < 3 \<Longrightarrow> 0 \<le> y \<Longrightarrow> y < 3 \<Longrightarrow> cell x y < 9"
  unfolding cell_def by auto

lemma create_successor_tile:
  assumes v: "valid_board b" and c: "create_successor b dx dy = Some succ"
    and d: "(dx, dy) \<noteq> (0, 0)"
  shows "\<exists>x y t. board_find b None = Some (x, y) \<and> get_tile b (x + dx) (y + dy) = Inr t
           \<and> t \<noteq> blank \<and> t \<in> set ''012345678'' \<and> get_tile succ x y = Inr t
           \<and> get_tile succ (x + dx) (y + dy) = Inr blank"
proof -
  from v obtain i where i: "i < 9" "b ! i = blank"
    "board_find b None = Some (int (i mod 3), 2 - int (i div 3))"
    by (rule valid_board_blank)
  define x y where "x = int (i mod 3)" and "y = 2 - int (i div 3)"
  have len: "length b = 9" using v by (simp add: valid_board_def)
  have xy: "0 \<le> x" "x < 3" "0 \<le> y" "y < 3" using i(1) by (auto simp: x_def y_def)
  have cxy: "cell x y = i" using cell_of_index [of i] by (simp add: x_def y_def)
  from c i(3) have r: "0 \<le> x + dx" "x + dx < 3" "0 \<le> y + dy" "y + dy < 3"
    and s: "succ = b[cell x y := b ! cell (x + dx) (y + dy), cell (x + dx) (y + dy) := b ! cell x y]"
    by (auto simp: create_successor_def Let_def x_def y_def split: if_splits)
  define j where "j = cell (x + dx) (y + dy)"
  have j9: "j < 9" unfolding j_def by (rule cell_less [OF r])
  have ji: "j \<noteq> i" using cell_eq_iff [OF r(1,2) xy(1,2) r(3,4) xy(3,4)] d cxy
    by (auto simp: j_def)
  have dist: "distinct b" by (rule valid_board_distinct [OF v])
  have tne: "b ! j \<noteq> blank"
    using nth_eq_iff_index_eq [OF dist, of j i] ji j9 i(1,2) len by simp
  have "b ! j \<in> set b" using j9 len by simp
  then have tin: "b ! j \<in> set ''012345678''"
    using v by (simp add: valid_board_def)
  have g1: "get_tile b (x + dx) (y + dy) = Inr (b ! j)"
    using r j9 len by (simp add: get_tile_def j_def)
  have g2: "get_tile succ x y = Inr (b ! j)"
    using xy i(1) ji j9 len by (simp add: get_tile_def s cxy j_def [symmetric])
  have g3: "get_tile succ (x + dx) (y + dy) = Inr blank"
    using r i ji j9 len by (simp add: get_tile_def s cxy j_def [symmetric])
  from i(3) g1 g2 g3 tne tin show ?thesis
    by (auto simp: x_def y_def)
qed

lemma move_cost:
  assumes "valid_board b" and "(move, succ) \<in> set (successors b)"
  shows "\<exists>x y dx dy t. board_find b (Some CHR ''0'') = Some (x, y) \<and> (move, dx, dy) \<in> set moves
           \<and> get_tile b (x + dx) (y + dy) = Inr t \<and> t \<noteq> blank
           \<and> get_tile succ x y = Inr t
           \<and> transition_cost b move = Inr (Some ((tile_value t) ^ 2))
           \<and> step_cost b succ = Inr ((tile_value t) ^ 2)"
proof -
  from successors_mem [OF assms(2)] obtain dx dy where m: "(move, dx, dy) \<in> set moves"
    and c: "create_successor b dx dy = Some succ"
    by (elim exE conjE)
  from m have d: "(dx, dy) \<noteq> (0, 0)" by (auto simp: moves_def)
  from create_successor_tile [OF assms(1) c d] obtain x y t where
    t: "board_find b None = Some (x, y)" "get_tile b (x + dx) (y + dy) = Inr t"
      "t \<noteq> blank" "t \<in> set ''012345678''" "get_tile succ x y = Inr t"
    by blast
  have f: "board_find b (Some CHR ''0'') = Some (x, y)"
    using t(1) by (simp add: board_find_def blank_def)
  have tc: "transition_cost b move = Inr (Some ((tile_value t) ^ 2))"
  proof -
    from m have "(move = ''up'' \<and> dx = 0 \<and> dy = -1) \<or> (move = ''down'' \<and> dx = 0 \<and> dy = 1)
        \<or> (move = ''left'' \<and> dx = 1 \<and> dy = 0) \<or> (move = ''right'' \<and> dx = -1 \<and> dy = 0)"
      by (simp add: moves_def)
    then show ?thesis
      using t(2)
      by (elim disjE conjE; simp add: transition_cost_def f tile_cost_def bindE_simps py_int_digit [OF t(4)])
  qed
  have sc: "step_cost b succ = Inr ((tile_value t) ^ 2)"
    by (simp add: step_cost_def t(1,5) bindE_simps py_int_digit [OF t(4)])
  from f m t tc sc show ?thesis by blast
qed


text \<open>
  Claim C5.  On a board with the tiles \<open>0\<close> to \<open>8\<close>, for a move that \<open>successors\<close> lists
  with the successor it produces: \<open>_transition_cost\<close> finds the blank at \<open>(x, y)\<close>, reads the
  tile \<open>t\<close> in the cell next to it that the move names, and returns the square of its
  number.  That tile is not the blank, it is the tile the successor holds where the blank
  was, and the square is what the loop of \<open>get_cost\<close> adds for the step from the board to
  that successor.
\<close>

theorem transition_cost_is_step_cost:
  assumes "valid_board b" and "(move, succ) \<in> set (successors b)"
  shows "\<exists>x y dx dy t. board_find b (Some CHR ''0'') = Some (x, y) \<and> (move, dx, dy) \<in> set moves
           \<and> get_tile b (x + dx) (y + dy) = Inr t \<and> t \<noteq> blank
           \<and> get_tile succ x y = Inr t
           \<and> transition_cost b move = Inr (Some ((tile_value t) ^ 2))
           \<and> step_cost b succ = Inr ((tile_value t) ^ 2)"
  using assms by (rule move_cost)

theorem transition_cost_is_step_cost_witness:
  "valid_board ''102345678'' \<and> (''right'', ''012345678'') \<in> set (successors ''102345678'')
   \<and> transition_cost ''102345678'' ''right'' = Inr (Some 1)
   \<and> step_cost ''102345678'' ''012345678'' = Inr 1"
proof -
  have v: "valid_board ''102345678''"
    by (auto simp: valid_board_def)
  have m: "(''right'', ''012345678'') \<in> set (successors ''102345678'')"
    by code_simp
  have tc: "transition_cost ''102345678'' ''right'' = Inr (Some 1)"
    by code_simp
  have sc: "step_cost ''102345678'' ''012345678'' = Inr 1"
    by code_simp
  from transition_cost_is_step_cost [OF v m] v m tc sc show ?thesis
    by simp
qed

section \<open>Popping the goal\<close>

lemma pop_body_goal:
  assumes "pop (frontier s) = Inr (goal s, fr)"
  shows "pop_body visit s =
           bnd (get_results_dict (s\<lparr>frontier := fr, explored := insert (goal s) (explored s),
                                    expanded_count := expanded_count s + 1\<rparr>) (Some (goal s)))
               (\<lambda>r. Some (Inr (Returned r)))"
  using assms by (simp add: pop_body_def bnd_simps expand_node_def)

lemma get_results_dict_chain:
  assumes "chain (parents s) st path" "cost_loop path 0 = Inr c"
  shows "get_results_dict s (Some st) =
           Some (Inr [''frontier_count'' \<mapsto> RInt (frontier_count s),
                      ''expanded_count'' \<mapsto> RInt (expanded_count s),
                      ''path_cost'' \<mapsto> RInt c,
                      ''path'' \<mapsto> RPath (zip (Some ''start'' # path_moves path) path)])"
  using assms
  by (simp add: get_results_dict_def get_cost_chain get_path_chain bnd_simps)

text \<open>
  Claim C10, as the code has it.  In \<open>UniformCostSolver.solve\<close> and \<open>AStarSolver.solve\<close>
  the popped node is expanded before it is tested: when the goal is popped, the result
  counts it in \<open>expanded_count\<close>.  The test comes before the \<open>for\<close> loop, so the search
  returns without visiting the successors of the goal, and \<open>frontier_count\<close> is what it was
  before the goal was popped.
\<close>

theorem goal_popped_returns:
  assumes "pop (frontier s) = Inr (goal s, fr)"
    and "chain (parents s) (goal s) path" and "cost_loop path 0 = Inr c"
  shows "pop_body ucost_visit s =
           Some (Inr (Returned [''frontier_count'' \<mapsto> RInt (frontier_count s),
                      ''expanded_count'' \<mapsto> RInt (expanded_count s + 1),
                      ''path_cost'' \<mapsto> RInt c,
                      ''path'' \<mapsto> RPath (zip (Some ''start'' # path_moves path) path)]))
       \<and> pop_body (astar_visit heur) s =
           Some (Inr (Returned [''frontier_count'' \<mapsto> RInt (frontier_count s),
                      ''expanded_count'' \<mapsto> RInt (expanded_count s + 1),
                      ''path_cost'' \<mapsto> RInt c,
                      ''path'' \<mapsto> RPath (zip (Some ''start'' # path_moves path) path)]))"
proof -
  let ?s = "s\<lparr>frontier := fr, explored := insert (goal s) (explored s),
               expanded_count := expanded_count s + 1\<rparr>"
  have "chain (parents ?s) (goal s) path" using assms(2) by simp
  from get_results_dict_chain [OF this assms(3)] show ?thesis
    by (simp add: pop_body_goal [OF assms(1)] bnd_simps)
qed

lemma chain_after_first:
  "chain (parents astar_after_first) ''012345678'' [''102345678'', ''012345678'']"
proof -
  have "chain (parents astar_after_first) ''102345678'' [''102345678'']"
    by (rule chain.root) (simp add: astar_after_first_def)
  then have "chain (parents astar_after_first) ''012345678'' ([''102345678''] @ [''012345678''])"
    by (rule chain.link [rotated]) (simp add: astar_after_first_def)
  then show ?thesis by simp
qed

lemma succ_start: "successors ''102345678'' = [(''up'', ''142305678''), (''left'', ''120345678''), (''right'', ''012345678'')]"
  by code_simp

lemma first_iteration:
  "pop_body (astar_visit (Some ''h1'')) (start_search AStarSolver_init ''102345678'')
     = Some (Inr (Running astar_after_first))"
proof -
  have h: "heuristic ''142305678'' (Some ''h1'') = Inr (Some 2)"
    "heuristic ''120345678'' (Some ''h1'') = Inr (Some 2)"
    "heuristic ''012345678'' (Some ''h1'') = Inr (Some 0)"
    by code_simp+
  have c: "step_cost ''102345678'' ''142305678'' = Inr 16"
    "step_cost ''102345678'' ''120345678'' = Inr 4"
    "step_cost ''102345678'' ''012345678'' = Inr 1"
    by code_simp+
  show ?thesis
    by (simp add: pop_body_def start_search_def AStarSolver_init_def GreedySolver_init_def
        UniformCostSolver_init_def BreadthFirstSolver_init_def add_to_frontier_def add_def
        with_entries_def default_priority_def pop_def bnd_simps expand_node_def succ_start
        GOAL_STATE_def astar_visit_def contains_def Let_def get_cost_def get_path_def
        get_path_loop.simps h c bindE_simps py_add_def astar_after_first_def)
qed


lemma pop_after_first:
  "pop (frontier astar_after_first) =
     Inr (goal astar_after_first, PriorityQueue [(''142305678'', Some 18), (''120345678'', Some 6)])"
  by (simp add: astar_after_first_def pop_def GOAL_STATE_def)

lemma cost_after_first: "cost_loop [''102345678'', ''012345678''] 0 = Inr 1"
  by code_simp

lemma moves_after_first: "get_move ''102345678'' ''012345678'' = Some ''right''"
  by code_simp

theorem goal_popped_returns_witness:
  "pop (frontier astar_after_first) =
     Inr (goal astar_after_first, PriorityQueue [(''142305678'', Some 18), (''120345678'', Some 6)])
   \<and> chain (parents astar_after_first) (goal astar_after_first) [''102345678'', ''012345678'']
   \<and> cost_loop [''102345678'', ''012345678''] 0 = Inr 1
   \<and> pop_body ucost_visit astar_after_first =
           Some (Inr (Returned [''frontier_count'' \<mapsto> RInt 4, ''expanded_count'' \<mapsto> RInt 2,
                      ''path_cost'' \<mapsto> RInt 1,
                      ''path'' \<mapsto> RPath [(Some ''start'', ''102345678''), (Some ''right'', ''012345678'')]]))
   \<and> pop_body (astar_visit (Some ''h1'')) astar_after_first =
           Some (Inr (Returned [''frontier_count'' \<mapsto> RInt 4, ''expanded_count'' \<mapsto> RInt 2,
                      ''path_cost'' \<mapsto> RInt 1,
                      ''path'' \<mapsto> RPath [(Some ''start'', ''102345678''), (Some ''right'', ''012345678'')]]))"
proof -
  have g: "goal astar_after_first = ''012345678''"
    by (simp add: astar_after_first_def GOAL_STATE_def)
  have c: "chain (parents astar_after_first) (goal astar_after_first) [''102345678'', ''012345678'']"
    using chain_after_first by (simp add: g)
  have n: "frontier_count astar_after_first = 4" "expanded_count astar_after_first = 1"
    by (simp_all add: astar_after_first_def)
  from goal_popped_returns [OF pop_after_first c cost_after_first, of "Some ''h1''"]
    pop_after_first c cost_after_first
  show ?thesis
    by (simp add: n moves_after_first)
qed

text \<open>
  The A* search with h1 from \<open>102345678\<close>: after the first iteration the goal is the next
  node popped.  Its successor \<open>312045678\<close> is neither explored nor in the frontier, and
  the search returns with \<open>frontier_count\<close> still 4: the successor was not enqueued.
\<close>

theorem goal_successors_enqueued_counterexample:
  "pop_body (astar_visit (Some ''h1'')) (start_search AStarSolver_init ''102345678'')
     = Some (Inr (Running astar_after_first))
   \<and> pop (frontier astar_after_first) =
     Inr (GOAL_STATE, PriorityQueue [(''142305678'', Some 18), (''120345678'', Some 6)])
   \<and> (''up'', ''312045678'') \<in> set (successors GOAL_STATE)
   \<and> ''312045678'' \<notin> explored astar_after_first
   \<and> \<not> contains (frontier astar_after_first) ''312045678''
   \<and> frontier_count astar_after_first = 4
   \<and> pop_body (astar_visit (Some ''h1'')) astar_after_first =
           Some (Inr (Returned [''frontier_count'' \<mapsto> RInt 4, ''expanded_count'' \<mapsto> RInt 2,
                      ''path_cost'' \<mapsto> RInt 1,
                      ''path'' \<mapsto> RPath [(Some ''start'', ''102345678''), (Some ''right'', ''012345678'')]]))"
proof -
  have g: "goal astar_after_first = GOAL_STATE"
    by (simp add: astar_after_first_def)
  have p: "pop (frontier astar_after_first) =
     Inr (GOAL_STATE, PriorityQueue [(''142305678'', Some 18), (''120345678'', Some 6)])"
    using pop_after_first by (simp add: g)
  have m: "(''up'', ''312045678'') \<in> set (successors GOAL_STATE)"
    by code_simp
  have e: "''312045678'' \<notin> explored astar_after_first"
    "\<not> contains (frontier astar_after_first) ''312045678''"
    "frontier_count astar_after_first = 4"
    by (simp_all add: astar_after_first_def contains_def)
  have n: "expanded_count astar_after_first = 1"
    by (simp add: astar_after_first_def)
  let ?s = "astar_after_first\<lparr>frontier := PriorityQueue [(''142305678'', Some 18), (''120345678'', Some 6)],
              explored := insert (goal astar_after_first) (explored astar_after_first),
              expanded_count := expanded_count astar_after_first + 1\<rparr>"
  have "chain (parents ?s) ''012345678'' [''102345678'', ''012345678'']"
    using chain_after_first by simp
  from get_results_dict_chain [OF this cost_after_first]
  have "get_results_dict ?s (Some ''012345678'') =
           Some (Inr [''frontier_count'' \<mapsto> RInt 4, ''expanded_count'' \<mapsto> RInt 2,
                      ''path_cost'' \<mapsto> RInt 1,
                      ''path'' \<mapsto> RPath [(Some ''start'', ''102345678''), (Some ''right'', ''012345678'')]])"
    by (simp add: moves_after_first e n)
  then have r: "pop_body (astar_visit (Some ''h1'')) astar_after_first =
           Some (Inr (Returned [''frontier_count'' \<mapsto> RInt 4, ''expanded_count'' \<mapsto> RInt 2,
                      ''path_cost'' \<mapsto> RInt 1,
                      ''path'' \<mapsto> RPath [(Some ''start'', ''102345678''), (Some ''right'', ''012345678'')]]))"
    by (simp add: pop_body_goal [OF pop_after_first] bnd_simps g GOAL_STATE_def)
  from first_iteration p m e r show ?thesis by simp
qed

section \<open>An unknown heuristic tag\<close>

lemma heuristic_unknown:
  "heur \<noteq> Some ''h1'' \<Longrightarrow> heur \<noteq> Some ''h2'' \<Longrightarrow> heur \<noteq> Some ''h3'' \<Longrightarrow> heuristic b heur = Inr None"
  by (simp add: heuristic_def)

lemma split_flavor_h4:
  "split_flavor ''greedy-h4'' = Inr (''greedy'', Some ''h4'')"
  "split_flavor ''astar-h4'' = Inr (''astar'', Some ''h4'')"
  by code_simp+

text \<open>
  Claim C6, which asks that a heuristic tag other than h1, h2, h3 be reported as a usage
  error before any search.  What the code does with the tag \<open>h4\<close>: \<open>_heuristic\<close> returns
  \<open>None\<close> on every board; from the goal state Greedy and A* return the success result,
  the tag unread; from \<open>102345678\<close> Greedy expands the start state and goes on with three
  frontier entries of priority \<open>None\<close>, and A* expands the start state and then raises
  a TypeError from adding \<open>None\<close> to a path cost.
\<close>

theorem invalid_heuristic_runs:
  "heuristic b (Some ''h4'') = Inr None
   \<and> solve_puzzle GOAL_STATE ''greedy-h4'' =
       Some (Inr [''frontier_count'' \<mapsto> RInt 1, ''expanded_count'' \<mapsto> RInt 0,
                  ''path_cost'' \<mapsto> RInt 0, ''path'' \<mapsto> RPath [(Some ''start'', GOAL_STATE)]])
   \<and> solve_puzzle GOAL_STATE ''astar-h4'' =
       Some (Inr [''frontier_count'' \<mapsto> RInt 1, ''expanded_count'' \<mapsto> RInt 0,
                  ''path_cost'' \<mapsto> RInt 0, ''path'' \<mapsto> RPath [(Some ''start'', GOAL_STATE)]])
   \<and> pop_body (greedy_visit (Some ''h4'')) (start_search GreedySolver_init ''102345678'')
       = Some (Inr (Running greedy_after_first))
   \<and> solve_puzzle ''102345678'' ''astar-h4'' = Some (Inl TypeError)"
proof -
  have h: "\<And>b. heuristic b (Some ''h4'') = Inr None"
    by (simp add: heuristic_def)
  have g: "solve_puzzle GOAL_STATE ''greedy-h4'' =
       Some (Inr [''frontier_count'' \<mapsto> RInt 1, ''expanded_count'' \<mapsto> RInt 0,
                  ''path_cost'' \<mapsto> RInt 0, ''path'' \<mapsto> RPath [(Some ''start'', GOAL_STATE)]])"
    by (simp add: solve_puzzle_def split_flavor_h4 bnd_simps greedy_solve_def Let_def
        goal_start_search init_simps get_results_dict_start)
  have a: "solve_puzzle GOAL_STATE ''astar-h4'' =
       Some (Inr [''frontier_count'' \<mapsto> RInt 1, ''expanded_count'' \<mapsto> RInt 0,
                  ''path_cost'' \<mapsto> RInt 0, ''path'' \<mapsto> RPath [(Some ''start'', GOAL_STATE)]])"
    by (simp add: solve_puzzle_def split_flavor_h4 bnd_simps astar_solve_def Let_def
        goal_start_search init_simps get_results_dict_start)
  have r: "pop_body (greedy_visit (Some ''h4'')) (start_search GreedySolver_init ''102345678'')
       = Some (Inr (Running greedy_after_first))"
    by (simp add: pop_body_def start_search_def GreedySolver_init_def
        UniformCostSolver_init_def BreadthFirstSolver_init_def add_to_frontier_def add_def
        with_entries_def default_priority_def pop_def bnd_simps expand_node_def succ_start
        GOAL_STATE_def greedy_visit_def contains_def Let_def h greedy_after_first_def)
  have c: "step_cost ''102345678'' ''142305678'' = Inr 16"
    by code_simp
  have b: "pop_body (astar_visit (Some ''h4'')) (start_search AStarSolver_init ''102345678'')
       = Some (Inl TypeError)"
    by (simp add: pop_body_def start_search_def AStarSolver_init_def GreedySolver_init_def
        UniformCostSolver_init_def BreadthFirstSolver_init_def add_to_frontier_def add_def
        with_entries_def default_priority_def pop_def bnd_simps expand_node_def succ_start
        GOAL_STATE_def astar_visit_def contains_def Let_def get_cost_def get_path_def
        get_path_loop.simps h c bindE_simps py_add_def)
  have e: "\<not> is_empty (frontier (start_search AStarSolver_init ''102345678''))"
    by (simp add: is_empty_def start_search_def add_to_frontier_def add_def with_entries_def
        AStarSolver_init_def GreedySolver_init_def UniformCostSolver_init_def)
  have w: "while_loop (pop_body (astar_visit (Some ''h4''))) (start_search AStarSolver_init ''102345678'')
        = Some (Inl TypeError)"
    by (subst while_loop.simps) (simp add: e b)
  have t: "solve_puzzle ''102345678'' ''astar-h4'' = Some (Inl TypeError)"
    by (simp add: solve_puzzle_def split_flavor_h4 bnd_simps astar_solve_def Let_def
        goal_start_search init_simps w GOAL_STATE_def)
  from h g a r t show ?thesis by simp
qed

section \<open>The counters\<close>

lemma entries_with_entries [simp]: "entries (with_entries fr es) = es"
  by (cases fr) (simp_all add: with_entries_def)

lemma keys_add [simp]: "keys (add fr st p) = insert st (keys fr)"
  by (simp add: keys_def add_def)

lemma keys_remove [simp]: "keys (remove fr st) = keys fr - {st}"
  by (auto simp: keys_def remove_def)

lemma contains_keys: "contains fr st \<longleftrightarrow> st \<in> keys fr"
  by (simp add: contains_def keys_def)

lemma distinct_add:
  "distinct (map fst (entries fr)) \<Longrightarrow> st \<notin> keys fr \<Longrightarrow> distinct (map fst (entries (add fr st p)))"
  by (simp add: add_def keys_def)

lemma distinct_remove:
  "distinct (map fst (entries fr)) \<Longrightarrow> distinct (map fst (entries (remove fr st)))"
  by (simp add: remove_def distinct_map_filter)

lemma first_min_mem: "first_min es = Some m \<Longrightarrow> m \<in> set es"
  by (induction es arbitrary: m) (auto split: option.splits if_splits)

lemma first_min_nonempty: "es \<noteq> [] \<Longrightarrow> \<exists>m. first_min es = Some m"
  by (cases es) (auto split: option.splits)

lemma pop_entries:
  assumes "pop fr = Inr (node, fr')"
  shows "\<exists>p. (node, p) \<in> set (entries fr) \<and> entries fr' = remove1 (node, p) (entries fr)"
proof (cases fr)
  case (FifoQueue es)
  with assms show ?thesis
    by (cases es) (auto simp: pop_def)
next
  case (PriorityQueue es)
  with assms obtain m where m: "first_min es = Some m" "node = fst m" "fr' = PriorityQueue (remove1 m es)"
    by (auto simp: pop_def split: option.splits)
  obtain n p where np: "m = (n, p)" by (cases m) auto
  from first_min_mem [OF m(1)] have "m \<in> set es" .
  with m(2,3) np PriorityQueue have
    "(node, p) \<in> set (entries fr) \<and> entries fr' = remove1 (node, p) (entries fr)"
    by simp
  then show ?thesis ..
qed

lemma pop_nonempty: "\<not> is_empty fr \<Longrightarrow> \<exists>node fr'. pop fr = Inr (node, fr')"
proof (cases fr)
  case (FifoQueue es)
  assume "\<not> is_empty fr"
  with FifoQueue show ?thesis by (cases es) (auto simp: pop_def is_empty_def)
next
  case (PriorityQueue es)
  assume "\<not> is_empty fr"
  with PriorityQueue have "es \<noteq> []" by (simp add: is_empty_def)
  from first_min_nonempty [OF this] PriorityQueue show ?thesis
    by (auto simp: pop_def)
qed

lemma keys_remove1:
  assumes "distinct (map fst es)" "(n, p) \<in> set es"
  shows "set (map fst (remove1 (n, p) es)) = set (map fst es) - {n}
         \<and> distinct (map fst (remove1 (n, p) es))"
  using assms
proof (induction es)
  case Nil
  then show ?case by simp
next
  case (Cons e es)
  show ?case
  proof (cases "e = (n, p)")
    case True
    with Cons.prems show ?thesis by auto
  next
    case False
    with Cons.prems have in_es: "(n, p) \<in> set es" and d: "distinct (map fst es)"
      and ne: "fst e \<notin> fst ` set es" by auto
    have "fst e \<noteq> n"
    proof
      assume "fst e = n"
      with in_es have "fst e \<in> fst ` set es"
        using image_eqI [of n fst "(n, p)" "set es"] by simp
      with ne show False ..
    qed
    with Cons.IH [OF d in_es] False ne show ?thesis by auto
  qed
qed

lemma pop_keys:
  assumes "pop fr = Inr (node, fr')" "distinct (map fst (entries fr))"
  shows "node \<in> keys fr \<and> keys fr' = keys fr - {node} \<and> distinct (map fst (entries fr'))"
proof -
  from pop_entries [OF assms(1)] obtain p where
    p: "(node, p) \<in> set (entries fr)" "entries fr' = remove1 (node, p) (entries fr)" by blast
  from keys_remove1 [OF assms(2) p(1)] p show ?thesis
    by (force simp: keys_def)
qed

lemma finite_keys [simp]: "finite (keys fr)"
  by (simp add: keys_def)

lemma counters_inv_bounds:
  assumes "counters_inv s"
  shows "0 \<le> expanded_count s \<and> expanded_count s \<le> frontier_count s"
proof -
  from assms have "finite (ever_added s)" by (simp add: counters_inv_def ever_added_def)
  then have "card (explored s) \<le> card (ever_added s)"
    by (rule card_mono) (simp add: ever_added_def)
  with assms show ?thesis by (simp add: counters_inv_def)
qed

lemma get_results_dict_counts:
  assumes "get_results_dict s st = Some (Inr r)"
  shows "r ''frontier_count'' = Some (RInt (frontier_count s))
         \<and> r ''expanded_count'' = Some (RInt (expanded_count s))"
proof (cases st)
  case None
  with assms show ?thesis by (auto simp: get_results_dict_def)
next
  case (Some b)
  with assms show ?thesis
    by (auto simp: get_results_dict_def Let_def bnd_eq_Some_Inr)
qed

lemma result_ok_inv:
  "counters_inv s \<Longrightarrow> get_results_dict s st = Some (Inr r) \<Longrightarrow> result_ok r"
  using counters_inv_bounds [of s] get_results_dict_counts [of s st r]
  by (simp add: result_ok_def)

lemma counters_inv_new:
  assumes "counters_inv s" "st \<notin> keys (frontier s)" "st \<notin> explored s"
    and "explored s' = explored s" "frontier s' = add (frontier s) st p"
    and "frontier_count s' = frontier_count s + 1" "expanded_count s' = expanded_count s"
  shows "counters_inv s' \<and> ever_added s \<subseteq> ever_added s'"
proof -
  have "st \<notin> ever_added s" using assms(2,3) by (simp add: ever_added_def)
  moreover have "finite (ever_added s)" using assms(1) by (simp add: counters_inv_def ever_added_def)
  ultimately have "card (insert st (ever_added s)) = card (ever_added s) + 1" by simp
  moreover have "explored s \<union> insert st (keys (frontier s)) = insert st (ever_added s)"
    by (auto simp: ever_added_def)
  moreover have "ever_added s \<subseteq> ever_added s'"
    using assms(4,5) by (auto simp: ever_added_def)
  ultimately show ?thesis
    using assms by (simp add: counters_inv_def ever_added_def distinct_add)
qed

lemma counters_inv_replace:
  assumes "counters_inv s" "st \<in> keys (frontier s)"
    and "explored s' = explored s" "frontier s' = add (remove (frontier s) st) st p"
    and "frontier_count s' = frontier_count s" "expanded_count s' = expanded_count s"
  shows "counters_inv s' \<and> ever_added s' = ever_added s"
proof -
  have k: "keys (add (remove (frontier s) st) st p) = keys (frontier s)"
    using assms(2) by auto
  have d: "distinct (map fst (entries (add (remove (frontier s) st) st p)))"
    using assms(1) by (intro distinct_add distinct_remove) (simp_all add: counters_inv_def)
  from assms k d show ?thesis
    by (simp add: counters_inv_def ever_added_def)
qed

lemma counters_inv_pop:
  assumes "counters_inv s" "pop (frontier s) = Inr (node, fr)"
    and "explored s' = insert node (explored s)" "frontier s' = fr"
    and "frontier_count s' = frontier_count s" "expanded_count s' = expanded_count s + 1"
  shows "counters_inv s' \<and> ever_added s' = ever_added s"
proof -
  from assms(1) have d: "distinct (map fst (entries (frontier s)))" by (simp add: counters_inv_def)
  from pop_keys [OF assms(2) d] have k: "node \<in> keys (frontier s)"
    "keys fr = keys (frontier s) - {node}" "distinct (map fst (entries fr))" by simp_all
  from assms(1) k(1) have n: "node \<notin> explored s" by (auto simp: counters_inv_def)
  from assms(1) have f: "finite (explored s)" by (simp add: counters_inv_def)
  from n f have c: "card (insert node (explored s)) = card (explored s) + 1" by simp
  have e: "insert node (explored s) \<union> (keys (frontier s) - {node}) = explored s \<union> keys (frontier s)"
    using k(1) by auto
  have i: "insert node (explored s) \<inter> (keys (frontier s) - {node}) = {}"
    using assms(1) by (auto simp: counters_inv_def)
  from assms k c e i f show ?thesis
    by (simp add: counters_inv_def ever_added_def)
qed

lemma counters_inv_parents [simp]: "counters_inv (s\<lparr>parents := ps\<rparr>) = counters_inv s"
  by (simp add: counters_inv_def ever_added_def)

lemma inv_step_same: "counters_inv s \<Longrightarrow> inv_step s (Some (Inr (Running s)))"
  by (simp add: inv_step_def)

lemma inv_step_error [simp]: "inv_step s None" "inv_step s (Some (Inl e))"
  by (simp_all add: inv_step_def)

lemma inv_step_returned:
  "counters_inv s1 \<Longrightarrow> inv_step s (bnd (get_results_dict s1 st) (\<lambda>r. Some (Inr (Returned r))))"
  by (auto simp: inv_step_def bnd_eq_Some_Inr result_ok_inv)

lemma inv_step_new:
  assumes "counters_inv s" "\<not> contains (frontier s) st" "st \<notin> explored s"
    and "explored s' = explored s" "frontier s' = add (frontier s) st p"
    and "frontier_count s' = frontier_count s + 1" "expanded_count s' = expanded_count s"
  shows "inv_step s (Some (Inr (Running s')))"
  using counters_inv_new [OF assms(1) _ assms(3-7)] assms(2)
  by (simp add: inv_step_def contains_keys)

lemma inv_step_replace:
  assumes "counters_inv s" "contains (frontier s) st"
    and "explored s' = explored s" "frontier s' = add (remove (frontier s) st) st p"
    and "frontier_count s' = frontier_count s" "expanded_count s' = expanded_count s"
  shows "inv_step s (Some (Inr (Running s')))"
  using counters_inv_replace [OF assms(1) _ assms(3-6)] assms(2)
  by (simp add: inv_step_def contains_keys)

lemma inv_step_add:
  assumes "counters_inv s" "st \<notin> explored s"
    and "explored s' = explored s" "expanded_count s' = expanded_count s"
    and "if contains (frontier s) st
         then (\<exists>p. frontier s' = add (remove (frontier s) st) st p) \<and> frontier_count s' = frontier_count s
         else (\<exists>p. frontier s' = add (frontier s) st p) \<and> frontier_count s' = frontier_count s + 1"
  shows "inv_step s (Some (Inr (Running s')))"
proof (cases "contains (frontier s) st")
  case True
  with assms(5) obtain p where "frontier s' = add (remove (frontier s) st) st p"
    "frontier_count s' = frontier_count s" by auto
  with assms True show ?thesis by (intro inv_step_replace [of s st s' p]) simp_all
next
  case False
  with assms(5) obtain p where "frontier s' = add (frontier s) st p"
    "frontier_count s' = frontier_count s + 1" by auto
  with assms False show ?thesis by (intro inv_step_new [of s st s' p]) simp_all
qed

lemma inv_step_if: "inv_step s a \<Longrightarrow> inv_step s b \<Longrightarrow> inv_step s (if c then a else b)"
  by simp

lemma inv_step_bnd:
  assumes "\<And>a. m = Some (Inr a) \<Longrightarrow> inv_step s (f a)"
  shows "inv_step s (bnd m f)"
proof (cases m)
  case None
  then show ?thesis by (simp add: bnd_simps)
next
  case (Some r)
  with assms show ?thesis by (cases r) (simp_all add: bnd_simps)
qed

lemma bfs_visit_inv: "counters_inv s \<Longrightarrow> inv_step s (bfs_visit s node ms)"
  by (auto simp: bfs_visit_def Let_def inv_step_same inv_step_returned add_to_frontier_def
      intro!: inv_step_new)

lemma greedy_visit_inv: "counters_inv s \<Longrightarrow> inv_step s (greedy_visit heur s node ms)"
  by (auto simp: greedy_visit_def Let_def inv_step_same intro!: inv_step_bnd inv_step_new)

lemma ucost_visit_inv: "counters_inv s \<Longrightarrow> inv_step s (ucost_visit s node ms)"
  apply (auto simp: ucost_visit_def Let_def inv_step_same
      intro!: inv_step_bnd inv_step_add [where st = "snd ms"] exI)
   apply (rule refl)+
  done

lemma astar_visit_inv: "counters_inv s \<Longrightarrow> inv_step s (astar_visit heur s node ms)"
  by (auto simp: astar_visit_def Let_def inv_step_same
      intro!: inv_step_bnd inv_step_add [where st = "snd ms"] exI)

lemma inv_step_trans:
  assumes "ever_added s \<subseteq> ever_added s1" "inv_step s1 out"
  shows "inv_step s out"
  using assms by (auto simp: inv_step_def)

lemma for_succs_inv:
  assumes v: "\<And>s ms. counters_inv s \<Longrightarrow> inv_step s (visit s node ms)"
  shows "counters_inv s \<Longrightarrow> inv_step s (for_succs visit s node succs)"
proof (induction succs arbitrary: s)
  case Nil
  then show ?case by (simp add: inv_step_same)
next
  case (Cons ms rest)
  from v [OF Cons.prems] have st: "inv_step s (visit s node ms)" .
  show ?case
    unfolding for_succs.simps
  proof (rule inv_step_bnd)
    fix out assume o: "visit s node ms = Some (Inr out)"
    show "inv_step s (case out of Returned r \<Rightarrow> Some (Inr (Returned r))
                                 | Running s1 \<Rightarrow> for_succs visit s1 node rest)"
    proof (cases out)
      case (Returned r)
      with st o show ?thesis by (simp add: inv_step_def)
    next
      case (Running s1)
      with st o have i: "counters_inv s1" and e: "ever_added s \<subseteq> ever_added s1"
        by (simp_all add: inv_step_def)
      from inv_step_trans [OF e Cons.IH [OF i]] Running show ?thesis by simp
    qed
  qed
qed

lemma pop_body_inv:
  assumes v: "\<And>s node ms. counters_inv s \<Longrightarrow> inv_step s (visit s node ms)"
    and i: "counters_inv s"
  shows "inv_step s (pop_body visit s)"
  unfolding pop_body_def
proof (rule inv_step_bnd)
  fix a assume "Some (pop (frontier s)) = Some (Inr a)"
  then obtain node fr where p: "pop (frontier s) = Inr (node, fr)" and a: "a = (node, fr)"
    by (cases a) simp
  let ?s1 = "s\<lparr>frontier := fr, explored := insert node (explored s),
               expanded_count := expanded_count s + 1\<rparr>"
  from counters_inv_pop [OF i p, of ?s1] have i1: "counters_inv ?s1" and e: "ever_added ?s1 = ever_added s"
    by simp_all
  have "inv_step ?s1 (if node = goal ?s1
           then bnd (get_results_dict ?s1 (Some node)) (\<lambda>r. Some (Inr (Returned r)))
           else for_succs visit ?s1 node (successors node))"
    using inv_step_returned [OF i1] for_succs_inv [of visit node, OF v i1] by (rule inv_step_if)
  then have "inv_step s (if node = goal ?s1
           then bnd (get_results_dict ?s1 (Some node)) (\<lambda>r. Some (Inr (Returned r)))
           else for_succs visit ?s1 node (successors node))"
    by (rule inv_step_trans [rotated]) (simp add: e)
  then show "inv_step s (case a of (node, fr) \<Rightarrow>
           let (succs, s1) = expand_node (s\<lparr>frontier := fr\<rparr>) node in
           if node = goal s1 then bnd (get_results_dict s1 (Some node)) (\<lambda>r. Some (Inr (Returned r)))
           else for_succs visit s1 node succs)"
    by (simp add: a expand_node_def)
qed

lemma bfs_body_inv:
  assumes i: "counters_inv s"
  shows "inv_step s (bfs_body s)"
  unfolding bfs_body_def
proof (rule inv_step_bnd)
  fix a assume "Some (pop (frontier s)) = Some (Inr a)"
  then obtain node fr where p: "pop (frontier s) = Inr (node, fr)" and a: "a = (node, fr)"
    by (cases a) simp
  let ?s1 = "s\<lparr>frontier := fr, explored := insert node (explored s),
               expanded_count := expanded_count s + 1\<rparr>"
  from counters_inv_pop [OF i p, of ?s1] have i1: "counters_inv ?s1" and e: "ever_added ?s1 = ever_added s"
    by simp_all
  have "inv_step ?s1 (for_succs bfs_visit ?s1 node (successors node))"
    using i1 by (simp add: for_succs_inv [OF bfs_visit_inv])
  then have "inv_step s (for_succs bfs_visit ?s1 node (successors node))"
    by (rule inv_step_trans [rotated]) (simp add: e)
  then show "inv_step s (case a of (node, fr) \<Rightarrow>
           let (succs, s1) = expand_node (s\<lparr>frontier := fr\<rparr>) node in
           for_succs bfs_visit s1 node succs)"
    by (simp add: a expand_node_def)
qed

lemma while_loop_result_ok_aux:
  assumes w: "while_loop body s = Some y"
  shows "(\<forall>s. counters_inv s \<longrightarrow> inv_step s (body s)) \<longrightarrow> counters_inv s \<longrightarrow>
         (\<forall>r. y = Inr r \<longrightarrow> result_ok r)"
proof (rule while_loop.raw_induct [where P = "\<lambda>body s y.
         (\<forall>s. counters_inv s \<longrightarrow> inv_step s (body s)) \<longrightarrow> counters_inv s \<longrightarrow>
         (\<forall>r. y = Inr r \<longrightarrow> result_ok r)", OF _ w])
  fix loop :: "(solver \<Rightarrow> outcome comp) \<Rightarrow> solver \<Rightarrow> results comp"
  fix body s y
  assume IH: "\<And>b t z. loop b t = Some z \<Longrightarrow>
         (\<forall>s. counters_inv s \<longrightarrow> inv_step s (b s)) \<longrightarrow> counters_inv t \<longrightarrow>
         (\<forall>r. z = Inr r \<longrightarrow> result_ok r)"
    and eq: "(if is_empty (frontier s) then get_results_dict s None
      else case body s of None \<Rightarrow> None | Some (Inl e) \<Rightarrow> Some (Inl e)
           | Some (Inr (Returned r)) \<Rightarrow> Some (Inr r)
           | Some (Inr (Running s1)) \<Rightarrow> loop body s1) = Some y"
  show "(\<forall>s. counters_inv s \<longrightarrow> inv_step s (body s)) \<longrightarrow> counters_inv s \<longrightarrow>
         (\<forall>r. y = Inr r \<longrightarrow> result_ok r)"
  proof (intro impI allI)
    fix r
    assume b: "\<forall>s. counters_inv s \<longrightarrow> inv_step s (body s)" and i: "counters_inv s"
      and y: "y = Inr r"
    show "result_ok r"
    proof (cases "is_empty (frontier s)")
      case True
      with eq y have "get_results_dict s None = Some (Inr r)" by simp
      with i show ?thesis by (rule result_ok_inv)
    next
      case False
      from b i have st: "inv_step s (body s)" by simp
      from False eq y have c: "(case body s of None \<Rightarrow> None | Some (Inl e) \<Rightarrow> Some (Inl e)
             | Some (Inr (Returned r)) \<Rightarrow> Some (Inr r)
             | Some (Inr (Running s1)) \<Rightarrow> loop body s1) = Some (Inr r)" by simp
      show ?thesis
      proof (cases "body s")
        case None
        with c show ?thesis by simp
      next
        case (Some x)
        show ?thesis
        proof (cases x)
          case (Inl e)
          with c Some show ?thesis by simp
        next
          case (Inr out)
          show ?thesis
          proof (cases out)
            case (Returned r')
            with c Some Inr st show ?thesis by (simp add: inv_step_def)
          next
            case (Running s1)
            with c Some Inr have w1: "loop body s1 = Some (Inr r)" by simp
            from st Some Inr Running have "counters_inv s1" by (simp add: inv_step_def)
            with IH [OF w1] b show ?thesis by simp
          qed
        qed
      qed
    qed
  qed
qed

lemma while_loop_result_ok:
  assumes "\<And>s. counters_inv s \<Longrightarrow> inv_step s (body s)"
    and "while_loop body s = Some (Inr r)" and "counters_inv s"
  shows "result_ok r"
  using while_loop_result_ok_aux [OF assms(2)] assms(1,3) by simp

lemma counters_inv_start:
  assumes "explored s0 = {}" "entries (frontier s0) = []" "frontier_count s0 = 0" "expanded_count s0 = 0"
  shows "counters_inv (start_search s0 st)"
  using assms
  by (simp add: counters_inv_def start_search_def add_to_frontier_def add_def ever_added_def keys_def)

lemma replace_keeps_count:
  assumes "contains (frontier s) succ"
  shows "ucost_visit s node (move, succ) = Some (Inr (Running s')) \<longrightarrow> frontier_count s' = frontier_count s"
    and "astar_visit heur s node (move, succ) = Some (Inr (Running s')) \<longrightarrow> frontier_count s' = frontier_count s"
  using assms
  by (auto simp: ucost_visit_def astar_visit_def Let_def bnd_eq_Some_Inr split: if_splits)

lemma solve_unfold:
  "bfs_solve st = (if st = GOAL_STATE then get_results_dict (start_search BreadthFirstSolver_init st) (Some st)
                   else while_loop bfs_body (start_search BreadthFirstSolver_init st))"
  "ucost_solve st = (if st = GOAL_STATE then get_results_dict (start_search UniformCostSolver_init st) (Some st)
                   else while_loop (pop_body ucost_visit) (start_search UniformCostSolver_init st))"
  "greedy_solve st heur = (if st = GOAL_STATE then get_results_dict (start_search GreedySolver_init st) (Some st)
                   else while_loop (pop_body (greedy_visit heur)) (start_search GreedySolver_init st))"
  "astar_solve st heur = (if st = GOAL_STATE then get_results_dict (start_search AStarSolver_init st) (Some st)
                   else while_loop (pop_body (astar_visit heur)) (start_search AStarSolver_init st))"
  by (simp_all add: bfs_solve_def ucost_solve_def greedy_solve_def astar_solve_def Let_def
      goal_start_search init_simps)

lemma counters_inv_inits:
  "counters_inv (start_search BreadthFirstSolver_init st)"
  "counters_inv (start_search UniformCostSolver_init st)"
  "counters_inv (start_search GreedySolver_init st)"
  "counters_inv (start_search AStarSolver_init st)"
  by (rule counters_inv_start;
      simp add: BreadthFirstSolver_init_def UniformCostSolver_init_def GreedySolver_init_def
        AStarSolver_init_def)+

text \<open>
  Claim C8.  For each strategy the solver satisfies the invariant of the counters after
  the start state was added; under the invariant both counters are non-negative,
  \<open>expanded_count \<le> frontier_count\<close>, and \<open>frontier_count\<close> is the number of distinct
  states ever added to the frontier.  Every iteration of the search loop of every strategy
  keeps the invariant and loses no state that was ever added; so do, inside an iteration,
  popping and expanding a node and every visit of a successor.  Every result that an
  iteration, the loop or \<open>solve\<close> returns holds counters with
  \<open>0 \<le> expanded_count \<le> frontier_count\<close>.  When UniformCost or A* visit a successor that is
  in the frontier, \<open>frontier_count\<close> stays as it is, whether the entry is replaced or not.
\<close>

theorem counters_invariant:
  assumes "body \<in> {bfs_body, pop_body ucost_visit, pop_body (greedy_visit heur),
                     pop_body (astar_visit heur)}"
  shows "counters_inv (start_search BreadthFirstSolver_init start_state)
       \<and> counters_inv (start_search UniformCostSolver_init start_state)
       \<and> counters_inv (start_search GreedySolver_init start_state)
       \<and> counters_inv (start_search AStarSolver_init start_state)
       \<and> (\<forall>s. counters_inv s \<longrightarrow>
              0 \<le> expanded_count s \<and> expanded_count s \<le> frontier_count s
              \<and> frontier_count s = int (card (ever_added s)))
       \<and> (\<forall>s s'. counters_inv s \<longrightarrow> body s = Some (Inr (Running s')) \<longrightarrow>
              counters_inv s' \<and> ever_added s \<subseteq> ever_added s')
       \<and> (\<forall>s node fr. counters_inv s \<longrightarrow> pop (frontier s) = Inr (node, fr) \<longrightarrow>
              counters_inv (snd (expand_node (s\<lparr>frontier := fr\<rparr>) node)))
       \<and> (\<forall>s node ms s'. counters_inv s \<longrightarrow>
              bfs_visit s node ms = Some (Inr (Running s'))
              \<or> ucost_visit s node ms = Some (Inr (Running s'))
              \<or> greedy_visit heur s node ms = Some (Inr (Running s'))
              \<or> astar_visit heur s node ms = Some (Inr (Running s')) \<longrightarrow>
              counters_inv s' \<and> ever_added s \<subseteq> ever_added s')
       \<and> (\<forall>s r. counters_inv s \<longrightarrow> body s = Some (Inr (Returned r)) \<longrightarrow> result_ok r)
       \<and> (\<forall>s r. counters_inv s \<longrightarrow> while_loop body s = Some (Inr r) \<longrightarrow> result_ok r)
       \<and> (\<forall>r. bfs_solve start_state = Some (Inr r) \<or> ucost_solve start_state = Some (Inr r)
              \<or> greedy_solve start_state heur = Some (Inr r)
              \<or> astar_solve start_state heur = Some (Inr r) \<longrightarrow> result_ok r)
       \<and> (\<forall>s s' node move succ. contains (frontier s) succ \<longrightarrow>
              ucost_visit s node (move, succ) = Some (Inr (Running s'))
              \<or> astar_visit heur s node (move, succ) = Some (Inr (Running s')) \<longrightarrow>
              frontier_count s' = frontier_count s)"
proof -
  have v: "\<And>s. counters_inv s \<Longrightarrow> inv_step s (bfs_body s)"
    "\<And>s. counters_inv s \<Longrightarrow> inv_step s (pop_body ucost_visit s)"
    "\<And>s. counters_inv s \<Longrightarrow> inv_step s (pop_body (greedy_visit heur) s)"
    "\<And>s. counters_inv s \<Longrightarrow> inv_step s (pop_body (astar_visit heur) s)"
    by (simp_all add: bfs_body_inv pop_body_inv ucost_visit_inv greedy_visit_inv astar_visit_inv)
  with assms have b: "\<And>s. counters_inv s \<Longrightarrow> inv_step s (body s)" by auto
  have 1: "\<forall>s. counters_inv s \<longrightarrow>
              0 \<le> expanded_count s \<and> expanded_count s \<le> frontier_count s
              \<and> frontier_count s = int (card (ever_added s))"
    using counters_inv_bounds by (simp add: counters_inv_def)
  have 2: "\<forall>s s'. counters_inv s \<longrightarrow> body s = Some (Inr (Running s')) \<longrightarrow>
              counters_inv s' \<and> ever_added s \<subseteq> ever_added s'"
    using b by (simp add: inv_step_def)
  have 7: "\<forall>s node fr. counters_inv s \<longrightarrow> pop (frontier s) = Inr (node, fr) \<longrightarrow>
              counters_inv (snd (expand_node (s\<lparr>frontier := fr\<rparr>) node))"
  proof (intro allI impI)
    fix s node fr assume "counters_inv s" "pop (frontier s) = Inr (node, fr)"
    from counters_inv_pop [OF this, of "snd (expand_node (s\<lparr>frontier := fr\<rparr>) node)"]
    show "counters_inv (snd (expand_node (s\<lparr>frontier := fr\<rparr>) node))"
      by (simp add: expand_node_def)
  qed
  have 8: "\<forall>s node ms s'. counters_inv s \<longrightarrow>
              bfs_visit s node ms = Some (Inr (Running s'))
              \<or> ucost_visit s node ms = Some (Inr (Running s'))
              \<or> greedy_visit heur s node ms = Some (Inr (Running s'))
              \<or> astar_visit heur s node ms = Some (Inr (Running s')) \<longrightarrow>
              counters_inv s' \<and> ever_added s \<subseteq> ever_added s'"
  proof (intro allI impI)
    fix s node ms s' assume i: "counters_inv s"
      and r: "bfs_visit s node ms = Some (Inr (Running s'))
              \<or> ucost_visit s node ms = Some (Inr (Running s'))
              \<or> greedy_visit heur s node ms = Some (Inr (Running s'))
              \<or> astar_visit heur s node ms = Some (Inr (Running s'))"
    from i have "inv_step s (bfs_visit s node ms)" "inv_step s (ucost_visit s node ms)"
      "inv_step s (greedy_visit heur s node ms)" "inv_step s (astar_visit heur s node ms)"
      by (simp_all add: bfs_visit_inv ucost_visit_inv greedy_visit_inv astar_visit_inv)
    with r show "counters_inv s' \<and> ever_added s \<subseteq> ever_added s'"
      by (auto simp: inv_step_def)
  qed
  have 3: "\<forall>s r. counters_inv s \<longrightarrow> body s = Some (Inr (Returned r)) \<longrightarrow> result_ok r"
    using b by (simp add: inv_step_def)
  have 4: "\<forall>s r. counters_inv s \<longrightarrow> while_loop body s = Some (Inr r) \<longrightarrow> result_ok r"
    using while_loop_result_ok [of body, OF b] by blast
  have 5: "\<forall>r. bfs_solve start_state = Some (Inr r) \<or> ucost_solve start_state = Some (Inr r)
              \<or> greedy_solve start_state heur = Some (Inr r)
              \<or> astar_solve start_state heur = Some (Inr r) \<longrightarrow> result_ok r"
    using while_loop_result_ok [OF v(1)] while_loop_result_ok [OF v(2)]
      while_loop_result_ok [OF v(3)] while_loop_result_ok [OF v(4)]
      result_ok_inv counters_inv_inits [of start_state]
    by (auto simp: solve_unfold split: if_splits)
  have 6: "\<forall>s s' node move succ. contains (frontier s) succ \<longrightarrow>
              ucost_visit s node (move, succ) = Some (Inr (Running s'))
              \<or> astar_visit heur s node (move, succ) = Some (Inr (Running s')) \<longrightarrow>
              frontier_count s' = frontier_count s"
    using replace_keeps_count by blast
  from counters_inv_inits [of start_state] 1 2 7 8 3 4 5 6 show ?thesis by (intro conjI)
qed

lemma ucost_first_iteration:
  "pop_body ucost_visit (start_search UniformCostSolver_init ''102345678'')
     = Some (Inr (Running ucost_after_first))"
proof -
  have t: "transition_cost ''102345678'' ''up'' = Inr (Some 16)"
    "transition_cost ''102345678'' ''left'' = Inr (Some 4)"
    "transition_cost ''102345678'' ''right'' = Inr (Some 1)"
    by code_simp+
  have c: "step_cost ''102345678'' ''142305678'' = Inr 16"
    "step_cost ''102345678'' ''120345678'' = Inr 4"
    "step_cost ''102345678'' ''012345678'' = Inr 1"
    by code_simp+
  show ?thesis
    by (simp add: pop_body_def start_search_def
        UniformCostSolver_init_def BreadthFirstSolver_init_def add_to_frontier_def add_def
        with_entries_def default_priority_def pop_def bnd_simps expand_node_def succ_start
        GOAL_STATE_def ucost_visit_def contains_def Let_def get_cost_def get_path_def
        get_path_loop.simps t c bindE_simps py_add_def ucost_after_first_def)
qed

lemma ucost_second_iteration:
  "pop_body ucost_visit ucost_after_first =
     Some (Inr (Returned [''frontier_count'' \<mapsto> RInt 4, ''expanded_count'' \<mapsto> RInt 2,
                ''path_cost'' \<mapsto> RInt 1,
                ''path'' \<mapsto> RPath [(Some ''start'', ''102345678''), (Some ''right'', ''012345678'')]]))"
proof -
  have p: "pop (frontier ucost_after_first) =
     Inr (goal ucost_after_first, PriorityQueue [(''142305678'', Some 16), (''120345678'', Some 4)])"
    by (simp add: ucost_after_first_def pop_def GOAL_STATE_def)
  let ?s = "ucost_after_first\<lparr>frontier := PriorityQueue [(''142305678'', Some 16), (''120345678'', Some 4)],
              explored := insert (goal ucost_after_first) (explored ucost_after_first),
              expanded_count := expanded_count ucost_after_first + 1\<rparr>"
  have "chain (parents ucost_after_first) ''102345678'' [''102345678'']"
    by (rule chain.root) (simp add: ucost_after_first_def)
  then have "chain (parents ucost_after_first) ''012345678'' ([''102345678''] @ [''012345678''])"
    by (rule chain.link [rotated]) (simp add: ucost_after_first_def)
  then have "chain (parents ?s) ''012345678'' [''102345678'', ''012345678'']" by simp
  from get_results_dict_chain [OF this cost_after_first]
  have "get_results_dict ?s (Some ''012345678'') =
           Some (Inr [''frontier_count'' \<mapsto> RInt 4, ''expanded_count'' \<mapsto> RInt 2,
                      ''path_cost'' \<mapsto> RInt 1,
                      ''path'' \<mapsto> RPath [(Some ''start'', ''102345678''), (Some ''right'', ''012345678'')]])"
    by (simp add: moves_after_first ucost_after_first_def)
  then show ?thesis
    by (simp add: pop_body_goal [OF p] bnd_simps GOAL_STATE_def)
       (simp add: ucost_after_first_def GOAL_STATE_def bnd_simps)
qed

lemma ucost_replace_run:
  "ucost_visit astar_after_first ''102345678'' (''up'', ''142305678'') =
     Some (Inr (Running (astar_after_first
       \<lparr>parents := (parents astar_after_first)(''142305678'' \<mapsto> Some ''102345678''),
        frontier := PriorityQueue [(''120345678'', Some 6), (''012345678'', Some 1), (''142305678'', Some 16)]\<rparr>)))"
proof -
  have t: "transition_cost ''102345678'' ''up'' = Inr (Some 16)"
    by code_simp
  have c: "step_cost ''102345678'' ''142305678'' = Inr 16"
    by code_simp
  show ?thesis
    by (simp add: astar_after_first_def add_def remove_def get_def py_gt_def
        with_entries_def bnd_simps ucost_visit_def contains_def Let_def get_cost_def get_path_def
        get_path_loop.simps t c bindE_simps py_add_def)
qed

lemma ucost_first_visit:
  "ucost_visit ((start_search UniformCostSolver_init ''102345678'')
      \<lparr>frontier := PriorityQueue [], explored := {''102345678''}, expanded_count := 1\<rparr>)
       ''102345678'' (''up'', ''142305678'') =
      Some (Inr (Running ((start_search UniformCostSolver_init ''102345678'')
        \<lparr>frontier := PriorityQueue [(''142305678'', Some 16)], explored := {''102345678''},
         expanded_count := 1, frontier_count := 2,
         parents := [''102345678'' \<mapsto> None, ''142305678'' \<mapsto> Some ''102345678'']\<rparr>)))"
proof -
  have t: "transition_cost ''102345678'' ''up'' = Inr (Some 16)"
    by code_simp
  have c: "step_cost ''102345678'' ''142305678'' = Inr 16"
    by code_simp
  show ?thesis
    by (simp add: start_search_def UniformCostSolver_init_def BreadthFirstSolver_init_def
        add_to_frontier_def add_def with_entries_def default_priority_def bnd_simps
        ucost_visit_def contains_def Let_def get_cost_def get_path_def
        get_path_loop.simps t c bindE_simps py_add_def)
qed

lemma ucost_first_pop:
  "pop (frontier (start_search UniformCostSolver_init ''102345678''))
     = Inr (''102345678'', PriorityQueue [])"
  "snd (expand_node ((start_search UniformCostSolver_init ''102345678'')\<lparr>frontier := PriorityQueue []\<rparr>)
        ''102345678'')
     = (start_search UniformCostSolver_init ''102345678'')
      \<lparr>frontier := PriorityQueue [], explored := {''102345678''}, expanded_count := 1\<rparr>"
  by (simp_all add: start_search_def add_to_frontier_def add_def with_entries_def pop_def
      UniformCostSolver_init_def BreadthFirstSolver_init_def expand_node_def)

theorem counters_invariant_witness:
  "pop_body ucost_visit \<in> {bfs_body, pop_body ucost_visit, pop_body (greedy_visit (Some ''h1'')),
                     pop_body (astar_visit (Some ''h1''))}
   \<and> counters_inv (start_search UniformCostSolver_init ''102345678'')
   \<and> pop_body ucost_visit (start_search UniformCostSolver_init ''102345678'')
       = Some (Inr (Running ucost_after_first))
   \<and> counters_inv ucost_after_first
   \<and> ever_added (start_search UniformCostSolver_init ''102345678'') \<subseteq> ever_added ucost_after_first
   \<and> pop (frontier (start_search UniformCostSolver_init ''102345678''))
       = Inr (''102345678'', PriorityQueue [])
   \<and> counters_inv ((start_search UniformCostSolver_init ''102345678'')
        \<lparr>frontier := PriorityQueue [], explored := {''102345678''}, expanded_count := 1\<rparr>)
   \<and> ucost_visit ((start_search UniformCostSolver_init ''102345678'')
      \<lparr>frontier := PriorityQueue [], explored := {''102345678''}, expanded_count := 1\<rparr>)
       ''102345678'' (''up'', ''142305678'') =
      Some (Inr (Running ((start_search UniformCostSolver_init ''102345678'')
        \<lparr>frontier := PriorityQueue [(''142305678'', Some 16)], explored := {''102345678''},
         expanded_count := 1, frontier_count := 2,
         parents := [''102345678'' \<mapsto> None, ''142305678'' \<mapsto> Some ''102345678'']\<rparr>)))
   \<and> counters_inv ((start_search UniformCostSolver_init ''102345678'')
        \<lparr>frontier := PriorityQueue [(''142305678'', Some 16)], explored := {''102345678''},
         expanded_count := 1, frontier_count := 2,
         parents := [''102345678'' \<mapsto> None, ''142305678'' \<mapsto> Some ''102345678'']\<rparr>)
   \<and> expanded_count ucost_after_first \<le> frontier_count ucost_after_first
   \<and> frontier_count ucost_after_first = int (card (ever_added ucost_after_first))
   \<and> pop_body ucost_visit ucost_after_first =
       Some (Inr (Returned [''frontier_count'' \<mapsto> RInt 4, ''expanded_count'' \<mapsto> RInt 2,
                ''path_cost'' \<mapsto> RInt 1,
                ''path'' \<mapsto> RPath [(Some ''start'', ''102345678''), (Some ''right'', ''012345678'')]]))
   \<and> ucost_solve ''102345678'' =
       Some (Inr [''frontier_count'' \<mapsto> RInt 4, ''expanded_count'' \<mapsto> RInt 2,
                ''path_cost'' \<mapsto> RInt 1,
                ''path'' \<mapsto> RPath [(Some ''start'', ''102345678''), (Some ''right'', ''012345678'')]])
   \<and> result_ok [''frontier_count'' \<mapsto> RInt 4, ''expanded_count'' \<mapsto> RInt 2,
                ''path_cost'' \<mapsto> RInt 1,
                ''path'' \<mapsto> RPath [(Some ''start'', ''102345678''), (Some ''right'', ''012345678'')]]
   \<and> contains (frontier astar_after_first) ''142305678''
   \<and> ucost_visit astar_after_first ''102345678'' (''up'', ''142305678'') =
       Some (Inr (Running (astar_after_first
         \<lparr>parents := (parents astar_after_first)(''142305678'' \<mapsto> Some ''102345678''),
          frontier := PriorityQueue [(''120345678'', Some 6), (''012345678'', Some 1), (''142305678'', Some 16)]\<rparr>)))
   \<and> frontier_count (astar_after_first
         \<lparr>parents := (parents astar_after_first)(''142305678'' \<mapsto> Some ''102345678''),
          frontier := PriorityQueue [(''120345678'', Some 6), (''012345678'', Some 1), (''142305678'', Some 16)]\<rparr>)
       = frontier_count astar_after_first"
proof -
  let ?body = "pop_body ucost_visit"
  let ?s0 = "start_search UniformCostSolver_init ''102345678''"
  let ?r = "[''frontier_count'' \<mapsto> RInt 4, ''expanded_count'' \<mapsto> RInt 2,
                ''path_cost'' \<mapsto> RInt 1,
                ''path'' \<mapsto> RPath [(Some ''start'', ''102345678''), (Some ''right'', ''012345678'')]]"
  have m: "?body \<in> {bfs_body, pop_body ucost_visit, pop_body (greedy_visit (Some ''h1'')),
                     pop_body (astar_visit (Some ''h1''))}" by simp
  note T = counters_invariant [OF m, of "''102345678''"]
  from T have i0: "counters_inv ?s0" by (elim conjE)
  from T have step: "\<forall>s s'. counters_inv s \<longrightarrow> ?body s = Some (Inr (Running s')) \<longrightarrow>
              counters_inv s' \<and> ever_added s \<subseteq> ever_added s'" by (elim conjE)
  from step [rule_format, OF i0 ucost_first_iteration] have i1: "counters_inv ucost_after_first"
    and e1: "ever_added ?s0 \<subseteq> ever_added ucost_after_first" by simp_all
  from T have popped: "\<forall>s node fr. counters_inv s \<longrightarrow> pop (frontier s) = Inr (node, fr) \<longrightarrow>
              counters_inv (snd (expand_node (s\<lparr>frontier := fr\<rparr>) node))" by (elim conjE)
  from popped [rule_format, OF i0 ucost_first_pop(1)]
  have ip: "counters_inv ((start_search UniformCostSolver_init ''102345678'')
        \<lparr>frontier := PriorityQueue [], explored := {''102345678''}, expanded_count := 1\<rparr>)"
    by (simp only: ucost_first_pop(2))
  from T have visit: "\<forall>s node ms s'. counters_inv s \<longrightarrow>
              bfs_visit s node ms = Some (Inr (Running s'))
              \<or> ucost_visit s node ms = Some (Inr (Running s'))
              \<or> greedy_visit (Some ''h1'') s node ms = Some (Inr (Running s'))
              \<or> astar_visit (Some ''h1'') s node ms = Some (Inr (Running s')) \<longrightarrow>
              counters_inv s' \<and> ever_added s \<subseteq> ever_added s'" by (elim conjE)
  from visit [rule_format, OF ip disjI2 [OF disjI1 [OF ucost_first_visit]]]
  have iv: "counters_inv ((start_search UniformCostSolver_init ''102345678'')
        \<lparr>frontier := PriorityQueue [(''142305678'', Some 16)], explored := {''102345678''},
         expanded_count := 1, frontier_count := 2,
         parents := [''102345678'' \<mapsto> None, ''142305678'' \<mapsto> Some ''102345678'']\<rparr>)" by simp
  from T have bounds: "\<forall>s. counters_inv s \<longrightarrow>
              0 \<le> expanded_count s \<and> expanded_count s \<le> frontier_count s
              \<and> frontier_count s = int (card (ever_added s))" by (elim conjE)
  from bounds [rule_format, OF i1] have b1: "expanded_count ucost_after_first \<le> frontier_count ucost_after_first"
    "frontier_count ucost_after_first = int (card (ever_added ucost_after_first))" by simp_all
  have e: "\<not> is_empty (frontier ?s0)" "\<not> is_empty (frontier ucost_after_first)"
    by (simp_all add: is_empty_def start_search_def add_to_frontier_def add_def with_entries_def
        UniformCostSolver_init_def ucost_after_first_def)
  have w1: "while_loop ?body ucost_after_first = Some (Inr ?r)"
    by (subst while_loop.simps) (simp add: e ucost_second_iteration)
  have w0: "while_loop ?body ?s0 = Some (Inr ?r)"
    by (subst while_loop.simps) (simp add: e ucost_first_iteration w1)
  have sv: "ucost_solve ''102345678'' = Some (Inr ?r)"
    by (simp add: solve_unfold GOAL_STATE_def w0)
  from T have res: "\<forall>r. bfs_solve ''102345678'' = Some (Inr r) \<or> ucost_solve ''102345678'' = Some (Inr r)
              \<or> greedy_solve ''102345678'' (Some ''h1'') = Some (Inr r)
              \<or> astar_solve ''102345678'' (Some ''h1'') = Some (Inr r) \<longrightarrow> result_ok r" by (elim conjE)
  from res [rule_format, OF disjI2 [OF disjI1 [OF sv]]] have ok: "result_ok ?r" .
  have c: "contains (frontier astar_after_first) ''142305678''"
    by (simp add: contains_def astar_after_first_def)
  from T have rep: "\<forall>s s' node move succ. contains (frontier s) succ \<longrightarrow>
              ucost_visit s node (move, succ) = Some (Inr (Running s'))
              \<or> astar_visit (Some ''h1'') s node (move, succ) = Some (Inr (Running s')) \<longrightarrow>
              frontier_count s' = frontier_count s" by (elim conjE)
  from rep [rule_format, OF c disjI1 [OF ucost_replace_run]] have fc: "frontier_count (astar_after_first
         \<lparr>parents := (parents astar_after_first)(''142305678'' \<mapsto> Some ''102345678''),
          frontier := PriorityQueue [(''120345678'', Some 6), (''012345678'', Some 1), (''142305678'', Some 16)]\<rparr>)
       = frontier_count astar_after_first" .
  from m i0 ucost_first_iteration i1 e1 ucost_first_pop(1) ip ucost_first_visit iv b1
    ucost_second_iteration sv ok c ucost_replace_run fc
  show ?thesis by (intro conjI)
qed

section \<open>The search tree\<close>

lemma chain_last: "chain ps st path \<Longrightarrow> path \<noteq> [] \<and> last path = st"
  by (induction rule: chain.induct) simp_all

lemma chain_dom: "chain ps st path \<Longrightarrow> st \<in> dom ps"
  by (induction rule: chain.induct) auto

lemma chain_upd:
  "chain ps st path \<Longrightarrow> x \<notin> set path \<Longrightarrow> chain (ps(x := v)) st path"
proof (induction rule: chain.induct)
  case (root st)
  then show ?case by (intro chain.root) simp
next
  case (link st p path)
  then show ?case by (intro chain.link [where p = p]) auto
qed

lemma chain_unique: "chain ps st path \<Longrightarrow> chain ps st path' \<Longrightarrow> path' = path"
  using get_path_loop_chain [of ps st path "[]"] get_path_loop_chain [of ps st path' "[]"]
  by simp

lemma step_cost_valid:
  assumes "valid_board p" "valid_board q"
  shows "step_cost p q = Inr ((tile_value (moved_tile p q)) ^ 2)"
proof -
  from assms(1) obtain i where i: "i < 9"
    "board_find p None = Some (int (i mod 3), 2 - int (i div 3))"
    by (rule valid_board_blank)
  have c: "cell (int (i mod 3)) (2 - int (i div 3)) = i" by (rule cell_of_index)
  have len: "length q = 9" using assms(2) by (simp add: valid_board_def)
  have r: "0 \<le> int (i mod 3)" "int (i mod 3) < 3" "0 \<le> 2 - int (i div 3)" "2 - int (i div 3) < 3"
    using i(1) by auto
  have g: "get_tile q (int (i mod 3)) (2 - int (i div 3)) = Inr (q ! i)"
    using r i(1) len by (simp add: get_tile_def c)
  have "q ! i \<in> set q" using i(1) len by simp
  then have d: "q ! i \<in> set ''012345678''" using assms(2) by (simp add: valid_board_def)
  show ?thesis
    by (simp add: step_cost_def i(2) g bindE_simps py_int_digit [OF d] moved_tile_def c)
qed

lemma cost_loop_valid:
  "\<forall>b \<in> set path. valid_board b \<Longrightarrow> cost_loop path acc = Inr (acc + path_cost_spec path)"
proof (induction path acc rule: cost_loop.induct)
  case (1 prev cur rest cost)
  then have "step_cost prev cur = Inr ((tile_value (moved_tile prev cur)) ^ 2)"
    by (intro step_cost_valid) simp_all
  with 1 show ?case by (simp add: bindE_simps)
qed simp_all

lemma path_cost_spec_snoc:
  "path \<noteq> [] \<Longrightarrow>
   path_cost_spec (path @ [x]) = path_cost_spec path + (tile_value (moved_tile (last path) x)) ^ 2"
  by (induction path rule: path_cost_spec.induct) simp_all

lemma successors_valid:
  assumes "valid_board b" "(move, c) \<in> set (successors b)"
  shows "valid_board c"
proof -
  from successors_mem [OF assms(2)] obtain dx dy where
    c: "create_successor b dx dy = Some c" by blast
  from assms(1) obtain i where i: "i < 9"
    "board_find b None = Some (int (i mod 3), 2 - int (i div 3))"
    by (rule valid_board_blank)
  define x y where "x = int (i mod 3)" and "y = 2 - int (i div 3)"
  have len: "length b = 9" using assms(1) by (simp add: valid_board_def)
  have cxy: "cell x y = i" using cell_of_index [of i] by (simp add: x_def y_def)
  from c i(2) have r: "cell (x + dx) (y + dy) < length b"
    and s: "c = b[cell x y := b ! cell (x + dx) (y + dy), cell (x + dx) (y + dy) := b ! cell x y]"
    by (auto simp: create_successor_def Let_def x_def y_def split: if_splits)
  have "set c = set b" unfolding s by (rule set_swap) (use r i(1) len cxy in simp_all)
  moreover have "length c = length b" unfolding s by simp
  ultimately show ?thesis using assms(1) by (simp add: valid_board_def)
qed

lemma chain_set:
  assumes "chain ps st path"
  shows "set path = insert st (set (butlast path))"
proof -
  from chain_last [OF assms] have "path = butlast path @ [st]" by (metis append_butlast_last_id)
  then have "set path = set (butlast path @ [st])" by simp
  then show ?thesis by simp
qed

lemma tree_inv_path:
  assumes "tree_inv s" "st \<in> dom (parents s)"
  obtains path where "chain (parents s) st path" "set (butlast path) \<subseteq> explored s"
    "\<forall>b \<in> set path. valid_board b"
  using assms unfolding tree_inv_def by blast

lemma tree_inv_valid:
  assumes "tree_inv s" "st \<in> dom (parents s)"
  shows "valid_board st"
proof -
  from assms obtain path where p: "chain (parents s) st path" "\<forall>b \<in> set path. valid_board b"
    by (rule tree_inv_path)
  from chain_set [OF p(1)] p(2) show ?thesis by simp
qed

lemma tree_inv_same_tree:
  assumes "tree_inv s" "parents s' = parents s" "explored s \<subseteq> explored s'"
    "ever_added s' \<subseteq> ever_added s"
  shows "tree_inv s'"
  unfolding tree_inv_def
proof (intro conjI ballI)
  from assms show "ever_added s' \<subseteq> dom (parents s')" by (auto simp: tree_inv_def)
next
  fix st assume "st \<in> dom (parents s')"
  with assms(2) have "st \<in> dom (parents s)" by simp
  with assms(1) obtain path where "chain (parents s) st path" "set (butlast path) \<subseteq> explored s"
    "\<forall>b \<in> set path. valid_board b" by (rule tree_inv_path)
  with assms(2,3) show "\<exists>path. chain (parents s') st path \<and> set (butlast path) \<subseteq> explored s'
         \<and> (\<forall>b \<in> set path. valid_board b)" by auto
next
  from assms(1,2) show "\<forall>st p. parents s' st = Some (Some p) \<longrightarrow> (\<exists>move. (move, st) \<in> set (successors p))"
    by (simp add: tree_inv_def)
qed

lemma tree_inv_bind:
  assumes t: "tree_inv s" and n: "node \<in> explored s" and v: "valid_board succ"
    and m: "(move, succ) \<in> set (successors node)"
    and u: "succ \<notin> explored s"
    and p: "parents s' = (parents s)(succ \<mapsto> Some node)" and e: "explored s' = explored s"
    and k: "keys (frontier s') \<subseteq> insert succ (keys (frontier s))"
  shows "tree_inv s'"
    and "\<exists>path. chain (parents s) node path \<and> chain (parents s') succ (path @ [succ])
           \<and> (\<forall>b \<in> set path. valid_board b)"
proof -
  from t n have nd: "node \<in> dom (parents s)" by (auto simp: tree_inv_def ever_added_def)
  with t obtain pn where pn: "chain (parents s) node pn" "set (butlast pn) \<subseteq> explored s"
    "\<forall>b \<in> set pn. valid_board b" by (rule tree_inv_path)
  from chain_set [OF pn(1)] pn(2) n have sub: "set pn \<subseteq> explored s" by auto
  with u have notin: "succ \<notin> set pn" by auto
  from chain_upd [OF pn(1) notin] have cn: "chain (parents s') node pn" by (simp add: p)
  have cs: "chain (parents s') succ (pn @ [succ])"
    by (rule chain.link [OF _ cn]) (simp add: p)
  from pn(1) cs pn(3) show "\<exists>path. chain (parents s) node path \<and> chain (parents s') succ (path @ [succ])
           \<and> (\<forall>b \<in> set path. valid_board b)" by blast
  show "tree_inv s'"
    unfolding tree_inv_def
  proof (intro conjI ballI)
    from t k show "ever_added s' \<subseteq> dom (parents s')"
      by (auto simp: tree_inv_def ever_added_def p e)
  next
    fix st assume d: "st \<in> dom (parents s')"
    show "\<exists>path. chain (parents s') st path \<and> set (butlast path) \<subseteq> explored s'
         \<and> (\<forall>b \<in> set path. valid_board b)"
    proof (cases "st = succ")
      case True
      from cs sub pn(3) v show ?thesis unfolding True e
        by (intro exI [of _ "pn @ [succ]"]) auto
    next
      case False
      with d have "st \<in> dom (parents s)" by (simp add: p)
      with t obtain path where q: "chain (parents s) st path" "set (butlast path) \<subseteq> explored s"
        "\<forall>b \<in> set path. valid_board b" by (rule tree_inv_path)
      from chain_set [OF q(1)] q(2) u False have "succ \<notin> set path" by auto
      from chain_upd [OF q(1) this] have "chain (parents s') st path" by (simp add: p)
      with q(2,3) show ?thesis unfolding e by blast
    qed
  next
    from t m show "\<forall>st p. parents s' st = Some (Some p) \<longrightarrow> (\<exists>move. (move, st) \<in> set (successors p))"
      by (auto simp: tree_inv_def p)
  qed
qed

lemma running_sat_simps [simp]:
  "running_sat I None" "running_sat I (Some (Inl err))" "running_sat I (Some (Inr (Returned r)))"
  by (simp_all add: running_sat_def)

lemma running_sat_Running: "running_sat I (Some (Inr (Running s))) = I s"
  by (simp add: running_sat_def)

lemma running_sat_bnd:
  assumes "\<And>a. m = Some (Inr a) \<Longrightarrow> running_sat I (f a)"
  shows "running_sat I (bnd m f)"
proof (cases m)
  case None
  then show ?thesis by (simp add: bnd_simps)
next
  case (Some r)
  with assms show ?thesis by (cases r) (simp_all add: bnd_simps)
qed

lemma running_bind:
  assumes "visiting s node" "ms \<in> set (successors node)" "snd ms \<notin> explored s"
    and "parents s' = (parents s)(snd ms \<mapsto> Some node)" and "explored s' = explored s"
    and "keys (frontier s') \<subseteq> insert (snd ms) (keys (frontier s))"
  shows "running_sat (\<lambda>s. visiting s node) (Some (Inr (Running s')))"
proof -
  from assms(1) have "valid_board node" by (simp add: visiting_def)
  from successors_valid [OF this, of "fst ms" "snd ms"] assms(2) have v: "valid_board (snd ms)"
    by simp
  from assms(2) have m: "(fst ms, snd ms) \<in> set (successors node)" by simp
  from assms(1) have t: "tree_inv s" and n: "node \<in> explored s" by (simp_all add: visiting_def)
  from tree_inv_bind(1) [OF t n v m assms(3-6)] assms(1,5) show ?thesis
    by (simp add: visiting_def running_sat_Running)
qed

lemma running_same: "visiting s node \<Longrightarrow> running_sat (\<lambda>s. visiting s node) (Some (Inr (Running s)))"
  by (simp add: running_sat_Running)

lemma bfs_visit_tree:
  "visiting s node \<Longrightarrow> ms \<in> set (successors node) \<Longrightarrow>
   running_sat (\<lambda>s. visiting s node) (bfs_visit s node ms)"
  by (auto simp: bfs_visit_def Let_def add_to_frontier_def running_same intro!: running_sat_bnd running_bind [where ms = ms])

lemma greedy_visit_tree:
  "visiting s node \<Longrightarrow> ms \<in> set (successors node) \<Longrightarrow>
   running_sat (\<lambda>s. visiting s node) (greedy_visit heur s node ms)"
  by (auto simp: greedy_visit_def Let_def running_same intro!: running_sat_bnd running_bind [where ms = ms])

lemma ucost_visit_tree:
  "visiting s node \<Longrightarrow> ms \<in> set (successors node) \<Longrightarrow>
   running_sat (\<lambda>s. visiting s node) (ucost_visit s node ms)"
  apply (auto simp: ucost_visit_def Let_def running_same intro!: running_sat_bnd)
   apply (rule running_bind [where ms = ms and s = s]; auto)+
  done

lemma astar_visit_tree:
  "visiting s node \<Longrightarrow> ms \<in> set (successors node) \<Longrightarrow>
   running_sat (\<lambda>s. visiting s node) (astar_visit heur s node ms)"
  apply (auto simp: astar_visit_def Let_def running_same intro!: running_sat_bnd)
   apply (rule running_bind [where ms = ms and s = s]; auto)+
  done

lemma for_succs_tree:
  assumes v: "\<And>s ms. visiting s node \<Longrightarrow> ms \<in> set succs \<Longrightarrow>
                running_sat (\<lambda>s. visiting s node) (visit s node ms)"
  shows "visiting s node \<Longrightarrow> running_sat (\<lambda>s. visiting s node) (for_succs visit s node succs)"
  using v
proof (induction succs arbitrary: s)
  case Nil
  then show ?case by (simp add: running_same)
next
  case (Cons ms rest)
  from Cons.prems(2) [OF Cons.prems(1), of ms] have st: "running_sat (\<lambda>s. visiting s node) (visit s node ms)"
    by simp
  show ?case
    unfolding for_succs.simps
  proof (rule running_sat_bnd)
    fix out assume o: "visit s node ms = Some (Inr out)"
    show "running_sat (\<lambda>s. visiting s node)
            (case out of Returned r \<Rightarrow> Some (Inr (Returned r))
                       | Running s1 \<Rightarrow> for_succs visit s1 node rest)"
    proof (cases out)
      case (Returned r)
      then show ?thesis by simp
    next
      case (Running s1)
      with st o have i: "visiting s1 node" by (simp add: running_sat_Running)
      have "running_sat (\<lambda>s. visiting s node) (for_succs visit s1 node rest)"
        by (rule Cons.IH [OF i]) (rule Cons.prems(2), simp_all)
      with Running show ?thesis by simp
    qed
  qed
qed

lemma pop_keys_weak:
  assumes "pop fr = Inr (node, fr')"
  shows "node \<in> keys fr \<and> keys fr' \<subseteq> keys fr"
proof -
  from pop_entries [OF assms] obtain p where
    p: "(node, p) \<in> set (entries fr)" "entries fr' = remove1 (node, p) (entries fr)" by blast
  from p(1) have "node \<in> keys fr" by (force simp: keys_def)
  moreover have "keys fr' \<subseteq> keys fr"
    using set_remove1_subset [of "(node, p)" "entries fr"] by (auto simp: keys_def p(2))
  ultimately show ?thesis ..
qed

lemma pop_visiting:
  assumes "tree_inv s" "pop (frontier s) = Inr (node, fr)"
    and "parents s1 = parents s" "explored s1 = insert node (explored s)" "frontier s1 = fr"
  shows "visiting s1 node"
proof -
  from pop_keys_weak [OF assms(2)] have k: "node \<in> keys (frontier s)" "keys fr \<subseteq> keys (frontier s)"
    by simp_all
  from assms(1) k(1) have d: "node \<in> dom (parents s)" by (auto simp: tree_inv_def ever_added_def)
  from tree_inv_valid [OF assms(1) d] have v: "valid_board node" .
  have "tree_inv s1"
    by (rule tree_inv_same_tree [OF assms(1,3)]) (use k assms(4,5) in \<open>auto simp: ever_added_def\<close>)
  with v assms(4) show ?thesis by (simp add: visiting_def)
qed

lemma running_sat_weaken:
  "running_sat I out \<Longrightarrow> (\<And>s. I s \<Longrightarrow> J s) \<Longrightarrow> running_sat J out"
  by (auto simp: running_sat_def)

lemma running_sat_if:
  "running_sat I a \<Longrightarrow> running_sat I b \<Longrightarrow> running_sat I (if c then a else b)"
  by simp

lemma pop_body_tree:
  assumes v: "\<And>s node ms. visiting s node \<Longrightarrow> ms \<in> set (successors node) \<Longrightarrow>
                running_sat (\<lambda>s. visiting s node) (visit s node ms)"
    and t: "tree_inv s"
  shows "running_sat tree_inv (pop_body visit s)"
  unfolding pop_body_def
proof (rule running_sat_bnd)
  fix a assume "Some (pop (frontier s)) = Some (Inr a)"
  then obtain node fr where p: "pop (frontier s) = Inr (node, fr)" and a: "a = (node, fr)"
    by (cases a) simp
  let ?s1 = "s\<lparr>frontier := fr, explored := insert node (explored s),
               expanded_count := expanded_count s + 1\<rparr>"
  from pop_visiting [OF t p, of ?s1] have i1: "visiting ?s1 node" by simp
  have "running_sat (\<lambda>s. visiting s node) (for_succs visit ?s1 node (successors node))"
  proof (rule for_succs_tree)
    show "visiting ?s1 node" by (rule i1)
  next
    fix s ms assume "visiting s node" "ms \<in> set (successors node)"
    then show "running_sat (\<lambda>s. visiting s node) (visit s node ms)" by (rule v)
  qed
  then have f: "running_sat tree_inv (for_succs visit ?s1 node (successors node))"
    by (rule running_sat_weaken) (simp add: visiting_def)
  have r: "running_sat tree_inv (bnd (get_results_dict ?s1 (Some node)) (\<lambda>r. Some (Inr (Returned r))))"
    by (rule running_sat_bnd) simp
  from r f have "running_sat tree_inv (if node = goal ?s1
           then bnd (get_results_dict ?s1 (Some node)) (\<lambda>r. Some (Inr (Returned r)))
           else for_succs visit ?s1 node (successors node))" by (rule running_sat_if)
  then show "running_sat tree_inv (case a of (node, fr) \<Rightarrow>
           let (succs, s1) = expand_node (s\<lparr>frontier := fr\<rparr>) node in
           if node = goal s1 then bnd (get_results_dict s1 (Some node)) (\<lambda>r. Some (Inr (Returned r)))
           else for_succs visit s1 node succs)"
    by (simp add: a expand_node_def)
qed

lemma bfs_body_tree:
  assumes t: "tree_inv s"
  shows "running_sat tree_inv (bfs_body s)"
  unfolding bfs_body_def
proof (rule running_sat_bnd)
  fix a assume "Some (pop (frontier s)) = Some (Inr a)"
  then obtain node fr where p: "pop (frontier s) = Inr (node, fr)" and a: "a = (node, fr)"
    by (cases a) simp
  let ?s1 = "s\<lparr>frontier := fr, explored := insert node (explored s),
               expanded_count := expanded_count s + 1\<rparr>"
  from pop_visiting [OF t p, of ?s1] have i1: "visiting ?s1 node" by simp
  have "running_sat (\<lambda>s. visiting s node) (for_succs bfs_visit ?s1 node (successors node))"
  proof (rule for_succs_tree)
    show "visiting ?s1 node" by (rule i1)
  next
    fix s ms assume "visiting s node" "ms \<in> set (successors node)"
    then show "running_sat (\<lambda>s. visiting s node) (bfs_visit s node ms)" by (rule bfs_visit_tree)
  qed
  then have f: "running_sat tree_inv (for_succs bfs_visit ?s1 node (successors node))"
    by (rule running_sat_weaken) (simp add: visiting_def)
  then show "running_sat tree_inv (case a of (node, fr) \<Rightarrow>
           let (succs, s1) = expand_node (s\<lparr>frontier := fr\<rparr>) node in
           for_succs bfs_visit s1 node succs)"
    by (simp add: a expand_node_def)
qed

lemma tree_inv_start:
  assumes "valid_board st" "parents s0 = Map.empty" "explored s0 = {}" "entries (frontier s0) = []"
  shows "tree_inv (start_search s0 st)"
  unfolding tree_inv_def
proof (intro conjI ballI)
  show "ever_added (start_search s0 st) \<subseteq> dom (parents (start_search s0 st))"
    using assms by (simp add: start_search_def add_to_frontier_def ever_added_def keys_def add_def)
next
  fix b assume "b \<in> dom (parents (start_search s0 st))"
  with assms(2) have b: "b = st" by (simp add: start_search_def add_to_frontier_def)
  from start_search_chain [of s0 st] assms(1)
  show "\<exists>path. chain (parents (start_search s0 st)) b path
          \<and> set (butlast path) \<subseteq> explored (start_search s0 st) \<and> (\<forall>b \<in> set path. valid_board b)"
    unfolding b by (intro exI [of _ "[st]"]) simp
next
  show "\<forall>b p. parents (start_search s0 st) b = Some (Some p) \<longrightarrow> (\<exists>move. (move, b) \<in> set (successors p))"
    using assms(2) by (simp add: start_search_def add_to_frontier_def)
qed

lemma tree_inv_inits:
  assumes "valid_board st"
  shows "tree_inv (start_search BreadthFirstSolver_init st)"
    "tree_inv (start_search UniformCostSolver_init st)"
    "tree_inv (start_search GreedySolver_init st)"
    "tree_inv (start_search AStarSolver_init st)"
  by (rule tree_inv_start [OF assms];
      simp add: BreadthFirstSolver_init_def UniformCostSolver_init_def GreedySolver_init_def
        AStarSolver_init_def)+

lemma chain_pairs:
  "chain ps st path \<Longrightarrow> Suc i < length path \<Longrightarrow> ps (path ! Suc i) = Some (Some (path ! i))"
proof (induction arbitrary: i rule: chain.induct)
  case (root st)
  then show ?case by simp
next
  case (link st p path)
  from chain_last [OF link.hyps(2)] have l: "path \<noteq> []" "last path = p" by simp_all
  show ?case
  proof (cases "Suc i < length path")
    case True
    with link.IH [OF True] show ?thesis by (simp add: nth_append)
  next
    case False
    with link.prems have i: "Suc i = length path" by simp
    then have "(path @ [st]) ! Suc i = st" by simp
    moreover from i have "length path - Suc 0 = i" by simp
    with i l have "(path @ [st]) ! i = p"
      by (simp add: nth_append last_conv_nth)
    ultimately show ?thesis using link.hyps(1) by simp
  qed
qed

lemma moved_tile_successor:
  assumes "valid_board b" "(move, succ) \<in> set (successors b)"
  shows "moved_tile b succ \<noteq> blank
         \<and> (\<exists>x y dx dy. board_find b None = Some (x, y) \<and> (move, dx, dy) \<in> set moves
               \<and> get_tile b (x + dx) (y + dy) = Inr (moved_tile b succ))"
proof -
  from move_cost [OF assms] obtain x y dx dy t where
    t: "board_find b (Some CHR ''0'') = Some (x, y)" "(move, dx, dy) \<in> set moves"
      "get_tile b (x + dx) (y + dy) = Inr t" "t \<noteq> blank" "get_tile succ x y = Inr t"
    by blast
  from t(1) have f: "board_find b None = Some (x, y)" by (simp add: board_find_def blank_def)
  from t(5) have "succ ! cell x y = t" by (simp add: get_tile_def split: if_splits)
  with f have "moved_tile b succ = t" by (simp add: moved_tile_def)
  with f t show ?thesis by blast
qed

lemma tree_inv_edge:
  "tree_inv s \<Longrightarrow> parents s st = Some (Some p) \<Longrightarrow> \<exists>move. (move, st) \<in> set (successors p)"
  by (simp add: tree_inv_def)

lemma get_cost_tree:
  assumes "chain (parents s) st path" "\<forall>b \<in> set path. valid_board b"
  shows "get_cost s st = Some (Inr (path_cost_spec path))"
  using get_cost_chain [OF assms(1)] cost_loop_valid [OF assms(2), of 0] by simp

text \<open>
  Claim C2.  Under the invariant of the parent dictionary, for every state \<open>S\<close> in the
  dictionary: the parents lead from \<open>S\<close> to the start state, \<open>get_path\<close> returns that path,
  and \<open>get_cost\<close> returns the sum, over the consecutive pairs \<open>(P, Q)\<close> of the path, of the
  square of the number on the tile that occupies, in \<open>Q\<close>, the coordinate of the blank of
  \<open>P\<close>.  \<open>Q\<close> is a successor of \<open>P\<close>, and that tile is never the blank: it is the tile
  that \<open>P\<close> holds next to its blank in the cell the move names.
\<close>

theorem get_cost_is_spec:
  assumes "tree_inv s" and "S \<in> dom (parents s)"
  shows "\<exists>path. chain (parents s) S path \<and> get_path s S = Some (Inr path)
           \<and> get_cost s S = Some (Inr (path_cost_spec path))
           \<and> (\<forall>i. Suc i < length path \<longrightarrow>
                 moved_tile (path ! i) (path ! Suc i) \<noteq> blank
                 \<and> (\<exists>move x y dx dy. (move, path ! Suc i) \<in> set (successors (path ! i))
                       \<and> board_find (path ! i) None = Some (x, y) \<and> (move, dx, dy) \<in> set moves
                       \<and> get_tile (path ! i) (x + dx) (y + dy)
                           = Inr (moved_tile (path ! i) (path ! Suc i))))"
proof -
  from assms obtain path where p: "chain (parents s) S path" "\<forall>b \<in> set path. valid_board b"
    by (rule tree_inv_path)
  have "\<forall>i. Suc i < length path \<longrightarrow>
                 moved_tile (path ! i) (path ! Suc i) \<noteq> blank
                 \<and> (\<exists>move x y dx dy. (move, path ! Suc i) \<in> set (successors (path ! i))
                       \<and> board_find (path ! i) None = Some (x, y) \<and> (move, dx, dy) \<in> set moves
                       \<and> get_tile (path ! i) (x + dx) (y + dy)
                           = Inr (moved_tile (path ! i) (path ! Suc i)))"
  proof (intro allI impI)
    fix i assume i: "Suc i < length path"
    from tree_inv_edge [OF assms(1) chain_pairs [OF p(1) i]] obtain move where
      m: "(move, path ! Suc i) \<in> set (successors (path ! i))" ..
    from i p(2) have v: "valid_board (path ! i)" by simp
    from moved_tile_successor [OF v m] m
    show "moved_tile (path ! i) (path ! Suc i) \<noteq> blank
                 \<and> (\<exists>move x y dx dy. (move, path ! Suc i) \<in> set (successors (path ! i))
                       \<and> board_find (path ! i) None = Some (x, y) \<and> (move, dx, dy) \<in> set moves
                       \<and> get_tile (path ! i) (x + dx) (y + dy)
                           = Inr (moved_tile (path ! i) (path ! Suc i)))"
      by blast
  qed
  with p get_path_chain [OF p(1)] get_cost_tree [OF p] show ?thesis by blast
qed

lemma visiting_costs:
  assumes v: "visiting s node" and m: "(move, succ) \<in> set (successors node)"
    and u: "succ \<notin> explored s"
  obtains c tc where "get_cost s node = Some (Inr c)" "transition_cost node move = Inr (Some tc)"
    "\<And>s'. parents s' = (parents s)(succ \<mapsto> Some node) \<Longrightarrow> get_cost s' succ = Some (Inr (c + tc))"
proof -
  from v have t: "tree_inv s" and n: "node \<in> explored s" and vn: "valid_board node"
    by (simp_all add: visiting_def)
  from t n have nd: "node \<in> dom (parents s)" by (auto simp: tree_inv_def ever_added_def)
  with t obtain pn where pn: "chain (parents s) node pn" "set (butlast pn) \<subseteq> explored s"
    "\<forall>b \<in> set pn. valid_board b" by (rule tree_inv_path)
  from chain_set [OF pn(1)] pn(2) n u have notin: "succ \<notin> set pn" by auto
  from chain_last [OF pn(1)] have l: "pn \<noteq> []" "last pn = node" by simp_all
  from successors_valid [OF vn m] have vs: "valid_board succ" .
  from move_cost [OF vn m] obtain tl where
    tl: "transition_cost node move = Inr (Some ((tile_value tl) ^ 2))"
      "step_cost node succ = Inr ((tile_value tl) ^ 2)" by blast
  from tl(2) step_cost_valid [OF vn vs] have e: "(tile_value (moved_tile node succ)) ^ 2 = (tile_value tl) ^ 2"
    by simp
  have c: "get_cost s node = Some (Inr (path_cost_spec pn))"
    by (rule get_cost_tree [OF pn(1,3)])
  have "get_cost s' succ = Some (Inr (path_cost_spec pn + (tile_value tl) ^ 2))"
    if p: "parents s' = (parents s)(succ \<mapsto> Some node)" for s'
  proof -
    from chain_upd [OF pn(1) notin] have "chain (parents s') node pn" by (simp add: p)
    then have "chain (parents s') succ (pn @ [succ])"
      by (rule chain.link [rotated]) (simp add: p)
    moreover have "\<forall>b \<in> set (pn @ [succ]). valid_board b" using pn(3) vs by simp
    ultimately have "get_cost s' succ = Some (Inr (path_cost_spec (pn @ [succ])))"
      by (rule get_cost_tree)
    then show ?thesis by (simp add: path_cost_spec_snoc [OF l(1)] l(2) e)
  qed
  with c tl(1) show thesis by (rule that)
qed

lemma get_contains: "contains fr st \<Longrightarrow> \<exists>p. get fr st = Inr p"
proof -
  assume "contains fr st"
  then have "st \<in> fst ` set (entries fr)" by (simp add: contains_def)
  then have "map_of (entries fr) st \<noteq> None" by (simp add: map_of_eq_None_iff)
  then show ?thesis by (auto simp: get_def)
qed

text \<open>
  Claim C1.  In the \<open>for\<close> loop of \<open>UniformCostSolver.solve\<close>, for a successor \<open>succ\<close> of the
  popped node that is not explored: \<open>get_cost\<close> of the node returns a cost \<open>c\<close> and
  \<open>_transition_cost\<close> of the move a cost \<open>tc\<close>.  When \<open>succ\<close> is in the frontier with a
  priority above \<open>c + tc\<close>, its parent becomes the node and its entry is removed and added
  again with the priority \<open>c + tc\<close>, the counters unchanged; when its priority is not above
  \<open>c + tc\<close>, nothing changes.  When \<open>succ\<close> is not in the frontier, its parent becomes the
  node, it is added with the priority \<open>c + tc\<close>, and \<open>frontier_count\<close> grows by one.  The
  invariant of the loop holds again after the visit.
\<close>

theorem ucost_visit_policy:
  assumes "visiting s node" and "(move, succ) \<in> set (successors node)" and "succ \<notin> explored s"
  shows "\<exists>c tc. get_cost s node = Some (Inr c) \<and> transition_cost node move = Inr (Some tc)
     \<and> (\<forall>p. contains (frontier s) succ \<longrightarrow> get (frontier s) succ = Inr (Some p) \<longrightarrow> p > c + tc \<longrightarrow>
           ucost_visit s node (move, succ) =
             Some (Inr (Running (s\<lparr>parents := (parents s)(succ \<mapsto> Some node),
                                   frontier := add (remove (frontier s) succ) succ (Some (c + tc))\<rparr>))))
     \<and> (\<forall>p. contains (frontier s) succ \<longrightarrow> get (frontier s) succ = Inr (Some p) \<longrightarrow> \<not> p > c + tc \<longrightarrow>
           ucost_visit s node (move, succ) = Some (Inr (Running s)))
     \<and> (\<not> contains (frontier s) succ \<longrightarrow>
           ucost_visit s node (move, succ) =
             Some (Inr (Running (s\<lparr>parents := (parents s)(succ \<mapsto> Some node),
                                   frontier_count := frontier_count s + 1,
                                   frontier := add (frontier s) succ (Some (c + tc))\<rparr>))))
     \<and> (\<forall>s'. ucost_visit s node (move, succ) = Some (Inr (Running s')) \<longrightarrow> visiting s' node)"
proof (rule visiting_costs [OF assms])
  fix c tc
  assume c: "get_cost s node = Some (Inr c)"
    "transition_cost node move = Inr (Some tc)"
    "\<And>s'. parents s' = (parents s)(succ \<mapsto> Some node) \<Longrightarrow> get_cost s' succ = Some (Inr (c + tc))"
  have 1: "\<forall>p. contains (frontier s) succ \<longrightarrow> get (frontier s) succ = Inr (Some p) \<longrightarrow> p > c + tc \<longrightarrow>
           ucost_visit s node (move, succ) =
             Some (Inr (Running (s\<lparr>parents := (parents s)(succ \<mapsto> Some node),
                                   frontier := add (remove (frontier s) succ) succ (Some (c + tc))\<rparr>)))"
    using assms(3) by (simp add: ucost_visit_def Let_def c bnd_simps bindE_simps py_add_def py_gt_def)
  have 2: "\<forall>p. contains (frontier s) succ \<longrightarrow> get (frontier s) succ = Inr (Some p) \<longrightarrow> \<not> p > c + tc \<longrightarrow>
           ucost_visit s node (move, succ) = Some (Inr (Running s))"
    using assms(3) by (simp add: ucost_visit_def Let_def c bnd_simps bindE_simps py_add_def py_gt_def)
  have 3: "\<not> contains (frontier s) succ \<longrightarrow>
           ucost_visit s node (move, succ) =
             Some (Inr (Running (s\<lparr>parents := (parents s)(succ \<mapsto> Some node),
                                   frontier_count := frontier_count s + 1,
                                   frontier := add (frontier s) succ (Some (c + tc))\<rparr>)))"
    using assms(3) by (simp add: ucost_visit_def Let_def c bnd_simps bindE_simps py_add_def py_gt_def)
  have 4: "\<forall>s'. ucost_visit s node (move, succ) = Some (Inr (Running s')) \<longrightarrow> visiting s' node"
    using ucost_visit_tree [OF assms(1,2)] by (simp add: running_sat_def)
  from c(1,2) 1 2 3 4 show ?thesis by blast
qed

lemma bfs_visit_seen:
  "contains (frontier s) succ \<or> succ \<in> explored s \<Longrightarrow>
   bfs_visit s node (move, succ) = Some (Inr (Running s))"
  by (auto simp: bfs_visit_def)

lemma bfs_visit_new:
  "\<not> contains (frontier s) succ \<Longrightarrow> succ \<notin> explored s \<Longrightarrow> succ \<noteq> goal s \<Longrightarrow>
   bfs_visit s node (move, succ) =
     Some (Inr (Running (add_to_frontier (s\<lparr>parents := (parents s)(succ \<mapsto> Some node)\<rparr>) succ)))"
  by (simp add: bfs_visit_def Let_def)

lemma bfs_visit_goal:
  assumes v: "visiting s node" and m: "(move, succ) \<in> set (successors node)"
    and n: "\<not> contains (frontier s) succ" "succ \<notin> explored s" and g: "succ = goal s"
  shows "\<exists>path. chain (parents s) node path \<and>
     bfs_visit s node (move, succ) =
       Some (Inr (Returned [''frontier_count'' \<mapsto> RInt (frontier_count s),
                  ''expanded_count'' \<mapsto> RInt (expanded_count s),
                  ''path_cost'' \<mapsto> RInt (path_cost_spec (path @ [succ])),
                  ''path'' \<mapsto> RPath (zip (Some ''start'' # path_moves (path @ [succ])) (path @ [succ]))]))"
proof -
  let ?s1 = "s\<lparr>parents := (parents s)(succ \<mapsto> Some node)\<rparr>"
  from v have t: "tree_inv s" and e: "node \<in> explored s" and vn: "valid_board node"
    by (simp_all add: visiting_def)
  from successors_valid [OF vn m] have vs: "valid_board succ" .
  from tree_inv_bind(2) [OF t e vs m n(2), of ?s1] obtain path where
    p: "chain (parents s) node path" "chain (parents ?s1) succ (path @ [succ])"
      "\<forall>b \<in> set path. valid_board b" by auto
  from p(3) vs have "\<forall>b \<in> set (path @ [succ]). valid_board b" by simp
  from cost_loop_valid [OF this, of 0] have c: "cost_loop (path @ [succ]) 0 = Inr (path_cost_spec (path @ [succ]))"
    by simp
  from get_results_dict_chain [OF p(2) c] n g p(1) show ?thesis
    by (intro exI [of _ path]) (simp add: bfs_visit_def Let_def bnd_simps)
qed

lemma bfs_visit_running:
  assumes "bfs_visit s node ms = Some (Inr (Running s'))"
  obtains (seen) "s' = s" "contains (frontier s) (snd ms) \<or> snd ms \<in> explored s"
    | (new) "s' = add_to_frontier (s\<lparr>parents := (parents s)(snd ms \<mapsto> Some node)\<rparr>) (snd ms)"
        "\<not> contains (frontier s) (snd ms)" "snd ms \<notin> explored s" "snd ms \<noteq> goal s"
  using assms
  by (auto simp: bfs_visit_def Let_def bnd_eq_Some_Inr split: if_splits)

lemma for_succs_Cons_Running:
  assumes "for_succs visit s node (ms # rest) = Some (Inr (Running s'))"
  obtains s1 where "visit s node ms = Some (Inr (Running s1))"
    "for_succs visit s1 node rest = Some (Inr (Running s'))"
proof -
  from assms obtain out where o: "visit s node ms = Some (Inr out)"
    "(case out of Returned r \<Rightarrow> Some (Inr (Returned r))
               | Running s1 \<Rightarrow> for_succs visit s1 node rest) = Some (Inr (Running s'))"
    by (auto simp: bnd_eq_Some_Inr)
  then show thesis using that by (cases out) auto
qed

lemma bfs_for_running:
  "for_succs bfs_visit s node succs = Some (Inr (Running s')) \<Longrightarrow>
   goal s' = goal s \<and> explored s' = explored s \<and> keys (frontier s) \<subseteq> keys (frontier s')
   \<and> (\<forall>c \<in> snd ` set succs. c = goal s \<longrightarrow> contains (frontier s) c \<or> c \<in> explored s)
   \<and> (contains (frontier s') (goal s) \<longrightarrow> contains (frontier s) (goal s))
   \<and> (\<forall>c. contains (frontier s) c \<or> c \<in> explored s \<longrightarrow> parents s' c = parents s c)"
proof (induction succs arbitrary: s)
  case Nil
  then show ?case by simp
next
  case (Cons ms rest)
  from Cons.prems obtain s1 where s1: "bfs_visit s node ms = Some (Inr (Running s1))"
    "for_succs bfs_visit s1 node rest = Some (Inr (Running s'))"
    by (rule for_succs_Cons_Running)
  note IH = Cons.IH [OF s1(2)]
  from s1(1) show ?case
  proof (cases rule: bfs_visit_running)
    case seen
    with IH show ?thesis by auto
  next
    case new
    note e = new(1)
    have f: "goal s1 = goal s" "explored s1 = explored s"
      "keys (frontier s1) = insert (snd ms) (keys (frontier s))"
      "parents s1 = (parents s)(snd ms \<mapsto> Some node)"
      by (simp_all add: e add_to_frontier_def)
    from IH have a: "goal s' = goal s" "explored s' = explored s" "keys (frontier s) \<subseteq> keys (frontier s')"
      using f by auto
    from IH have b: "\<forall>c \<in> snd ` set (ms # rest). c = goal s \<longrightarrow> contains (frontier s) c \<or> c \<in> explored s"
      using f new(2-4) by (auto simp: contains_keys)
    from IH have c: "contains (frontier s') (goal s) \<longrightarrow> contains (frontier s) (goal s)"
      using f new(2-4) by (auto simp: contains_keys)
    have d: "\<forall>c. contains (frontier s) c \<or> c \<in> explored s \<longrightarrow> parents s' c = parents s c"
    proof (intro allI impI)
      fix c assume seen: "contains (frontier s) c \<or> c \<in> explored s"
      with new(2-4) have ne: "c \<noteq> snd ms" by auto
      from seen f have "contains (frontier s1) c \<or> c \<in> explored s1" by (auto simp: contains_keys)
      with IH have "parents s' c = parents s1 c" by blast
      with ne f(4) show "parents s' c = parents s c" by simp
    qed
    from a b c d show ?thesis by blast
  qed
qed

lemma bfs_for_returns:
  assumes "visiting s node" "set succs \<subseteq> set (successors node)" "goal s \<in> snd ` set succs"
    "\<not> contains (frontier s) (goal s)" "goal s \<notin> explored s"
  shows "\<exists>r. for_succs bfs_visit s node succs = Some (Inr (Returned r))
             \<and> r ''path'' \<noteq> None \<and> r ''path_cost'' \<noteq> None"
  using assms
proof (induction succs arbitrary: s)
  case Nil
  then show ?case by simp
next
  case (Cons ms rest)
  obtain move succ where ms: "ms = (move, succ)" by (cases ms) auto
  from Cons.prems(2) ms have m: "(move, succ) \<in> set (successors node)" by simp
  show ?case
  proof (cases "contains (frontier s) succ \<or> succ \<in> explored s")
    case True
    with Cons.prems(4,5) have "succ \<noteq> goal s" by auto
    with Cons.prems(3) ms have "goal s \<in> snd ` set rest" by auto
    from Cons.IH [OF Cons.prems(1) _ this Cons.prems(4,5)] Cons.prems(2)
    show ?thesis by (simp add: ms bfs_visit_seen [OF True] bnd_simps)
  next
    case False
    then have new: "\<not> contains (frontier s) succ" "succ \<notin> explored s" by simp_all
    show ?thesis
    proof (cases "succ = goal s")
      case True
      from bfs_visit_goal [OF Cons.prems(1) m new True] show ?thesis
        by (auto simp: ms bnd_simps)
    next
      case False
      let ?s1 = "add_to_frontier (s\<lparr>parents := (parents s)(succ \<mapsto> Some node)\<rparr>) succ"
      have r: "bfs_visit s node (move, succ) = Some (Inr (Running ?s1))"
        by (rule bfs_visit_new [OF new False])
      from bfs_visit_tree [OF Cons.prems(1), of "(move, succ)"] m r have v1: "visiting ?s1 node"
        by (simp add: running_sat_Running)
      have g1: "goal ?s1 = goal s" by (simp add: add_to_frontier_def)
      from False Cons.prems(3) ms have in_rest: "goal ?s1 \<in> snd ` set rest" by (auto simp: g1)
      from Cons.prems(4) False have nc: "\<not> contains (frontier ?s1) (goal ?s1)"
        by (auto simp: contains_keys add_to_frontier_def)
      from Cons.prems(5) have ne: "goal ?s1 \<notin> explored ?s1" by (simp add: add_to_frontier_def)
      from Cons.IH [OF v1 _ in_rest nc ne] Cons.prems(2)
      show ?thesis by (simp add: ms r bnd_simps)
    qed
  qed
qed

text \<open>
  The invariant of the parent dictionary holds once a valid start state was added
  (\<open>tree_inv_inits\<close>), after every iteration of the search loop of every strategy (below),
  and between the visits of the successors of a popped node (\<open>pop_visiting\<close> and the
  lemmas on the four visits).
\<close>

lemma tree_inv_body:
  assumes "body \<in> {bfs_body, pop_body ucost_visit, pop_body (greedy_visit heur),
                     pop_body (astar_visit heur)}"
    and "tree_inv s" and "body s = Some (Inr (Running s'))"
  shows "tree_inv s'"
proof -
  have "running_sat tree_inv (bfs_body s)"
    "running_sat tree_inv (pop_body ucost_visit s)"
    "running_sat tree_inv (pop_body (greedy_visit heur) s)"
    "running_sat tree_inv (pop_body (astar_visit heur) s)"
    using assms(2)
    by (simp_all add: bfs_body_tree pop_body_tree ucost_visit_tree greedy_visit_tree astar_visit_tree)
  with assms(1) have "running_sat tree_inv (body s)" by auto
  with assms(3) show ?thesis by (simp add: running_sat_def)
qed

text \<open>
  Claim C3.  In the \<open>for\<close> loop of \<open>BreadthFirstSolver.solve\<close>, for a successor \<open>succ\<close> of
  the popped node: when \<open>succ\<close> is in the frontier or explored, the visit leaves the solver
  as it is (no parent is rebound, nothing is compared).  When \<open>succ\<close> is new and is the
  goal, the visit returns the success result at once, with the path through the node, and
  with the counters as they are: the goal is not added to the frontier.  When \<open>succ\<close> is new
  and not the goal, it gets the node as parent and is added to the frontier.  For the whole
  loop: when it ends without returning, no new successor was the goal, the goal did not
  enter the frontier, and the parents of the states seen before are unchanged; when the
  goal is among the successors and new, the loop returns a result with a path.  An
  iteration of the \<open>while\<close> loop that pops the node is this loop over the successors of
  the node, run right after the node was expanded: the popped node itself is not tested,
  and the iteration returns the result as soon as the loop does.
\<close>

theorem bfs_goal_test_at_generation:
  assumes "visiting s node" and "(move, succ) \<in> set (successors node)"
  shows "(contains (frontier s) succ \<or> succ \<in> explored s \<longrightarrow>
            bfs_visit s node (move, succ) = Some (Inr (Running s)))
     \<and> (\<not> contains (frontier s) succ \<longrightarrow> succ \<notin> explored s \<longrightarrow> succ = goal s \<longrightarrow>
          (\<exists>path. chain (parents s) node path \<and>
             bfs_visit s node (move, succ) =
               Some (Inr (Returned [''frontier_count'' \<mapsto> RInt (frontier_count s),
                  ''expanded_count'' \<mapsto> RInt (expanded_count s),
                  ''path_cost'' \<mapsto> RInt (path_cost_spec (path @ [succ])),
                  ''path'' \<mapsto> RPath (zip (Some ''start'' # path_moves (path @ [succ])) (path @ [succ]))]))))
     \<and> (\<not> contains (frontier s) succ \<longrightarrow> succ \<notin> explored s \<longrightarrow> succ \<noteq> goal s \<longrightarrow>
          bfs_visit s node (move, succ) =
            Some (Inr (Running (add_to_frontier (s\<lparr>parents := (parents s)(succ \<mapsto> Some node)\<rparr>) succ))))
     \<and> (\<forall>succs s'. for_succs bfs_visit s node succs = Some (Inr (Running s')) \<longrightarrow>
            (\<forall>c \<in> snd ` set succs. c = goal s \<longrightarrow> contains (frontier s) c \<or> c \<in> explored s)
            \<and> (contains (frontier s') (goal s) \<longrightarrow> contains (frontier s) (goal s))
            \<and> (\<forall>c. contains (frontier s) c \<or> c \<in> explored s \<longrightarrow> parents s' c = parents s c))
     \<and> (\<forall>succs. set succs \<subseteq> set (successors node) \<longrightarrow> goal s \<in> snd ` set succs \<longrightarrow>
            \<not> contains (frontier s) (goal s) \<longrightarrow> goal s \<notin> explored s \<longrightarrow>
            (\<exists>r. for_succs bfs_visit s node succs = Some (Inr (Returned r))
                 \<and> r ''path'' \<noteq> None \<and> r ''path_cost'' \<noteq> None))
     \<and> (\<forall>s0 fr. pop (frontier s0) = Inr (node, fr) \<longrightarrow>
            snd (expand_node (s0\<lparr>frontier := fr\<rparr>) node) = s \<longrightarrow>
            bfs_body s0 = for_succs bfs_visit s node (successors node)
            \<and> (goal s \<in> snd ` set (successors node) \<longrightarrow>
                 \<not> contains (frontier s) (goal s) \<longrightarrow> goal s \<notin> explored s \<longrightarrow>
                 (\<exists>r. bfs_body s0 = Some (Inr (Returned r))
                      \<and> r ''path'' \<noteq> None \<and> r ''path_cost'' \<noteq> None)))"
proof -
  have 1: "contains (frontier s) succ \<or> succ \<in> explored s \<longrightarrow>
            bfs_visit s node (move, succ) = Some (Inr (Running s))"
    using bfs_visit_seen by blast
  have 2: "\<not> contains (frontier s) succ \<longrightarrow> succ \<notin> explored s \<longrightarrow> succ = goal s \<longrightarrow>
          (\<exists>path. chain (parents s) node path \<and>
             bfs_visit s node (move, succ) =
               Some (Inr (Returned [''frontier_count'' \<mapsto> RInt (frontier_count s),
                  ''expanded_count'' \<mapsto> RInt (expanded_count s),
                  ''path_cost'' \<mapsto> RInt (path_cost_spec (path @ [succ])),
                  ''path'' \<mapsto> RPath (zip (Some ''start'' # path_moves (path @ [succ])) (path @ [succ]))])))"
    using bfs_visit_goal [OF assms] by blast
  have 3: "\<not> contains (frontier s) succ \<longrightarrow> succ \<notin> explored s \<longrightarrow> succ \<noteq> goal s \<longrightarrow>
          bfs_visit s node (move, succ) =
            Some (Inr (Running (add_to_frontier (s\<lparr>parents := (parents s)(succ \<mapsto> Some node)\<rparr>) succ)))"
    using bfs_visit_new by blast
  have 4: "\<forall>succs s'. for_succs bfs_visit s node succs = Some (Inr (Running s')) \<longrightarrow>
            (\<forall>c \<in> snd ` set succs. c = goal s \<longrightarrow> contains (frontier s) c \<or> c \<in> explored s)
            \<and> (contains (frontier s') (goal s) \<longrightarrow> contains (frontier s) (goal s))
            \<and> (\<forall>c. contains (frontier s) c \<or> c \<in> explored s \<longrightarrow> parents s' c = parents s c)"
    using bfs_for_running by blast
  have 5: "\<forall>succs. set succs \<subseteq> set (successors node) \<longrightarrow> goal s \<in> snd ` set succs \<longrightarrow>
            \<not> contains (frontier s) (goal s) \<longrightarrow> goal s \<notin> explored s \<longrightarrow>
            (\<exists>r. for_succs bfs_visit s node succs = Some (Inr (Returned r))
                 \<and> r ''path'' \<noteq> None \<and> r ''path_cost'' \<noteq> None)"
    using bfs_for_returns [OF assms(1)] by blast
  have 6: "(\<forall>s0 fr. pop (frontier s0) = Inr (node, fr) \<longrightarrow>
                     snd (expand_node (s0\<lparr>frontier := fr\<rparr>) node) = s \<longrightarrow>
                     bfs_body s0 = for_succs bfs_visit s node (successors node)
                     \<and> (goal s \<in> snd ` set (successors node) \<longrightarrow>
                          \<not> contains (frontier s) (goal s) \<longrightarrow> goal s \<notin> explored s \<longrightarrow>
                          (\<exists>r. bfs_body s0 = Some (Inr (Returned r))
                               \<and> r ''path'' \<noteq> None \<and> r ''path_cost'' \<noteq> None)))"
  proof (intro allI impI)
    fix s0 fr
    assume p: "pop (frontier s0) = Inr (node, fr)"
      and e: "snd (expand_node (s0\<lparr>frontier := fr\<rparr>) node) = s"
    from p e have b: "bfs_body s0 = for_succs bfs_visit s node (successors node)"
      by (simp add: bfs_body_def bnd_simps expand_node_def)
    from bfs_for_returns [OF assms(1), of "successors node"]
    have "goal s \<in> snd ` set (successors node) \<longrightarrow>
                 \<not> contains (frontier s) (goal s) \<longrightarrow> goal s \<notin> explored s \<longrightarrow>
                 (\<exists>r. bfs_body s0 = Some (Inr (Returned r))
                      \<and> r ''path'' \<noteq> None \<and> r ''path_cost'' \<noteq> None)"
      unfolding b by simp
    with b show "bfs_body s0 = for_succs bfs_visit s node (successors node)
            \<and> (goal s \<in> snd ` set (successors node) \<longrightarrow>
                 \<not> contains (frontier s) (goal s) \<longrightarrow> goal s \<notin> explored s \<longrightarrow>
                 (\<exists>r. bfs_body s0 = Some (Inr (Returned r))
                      \<and> r ''path'' \<noteq> None \<and> r ''path_cost'' \<noteq> None))" ..
  qed
  from 1 2 3 4 5 6 show ?thesis by (intro conjI)
qed

lemma valid_start: "valid_board ''102345678''"
  by (auto simp: valid_board_def)

lemma chain_ucost_after_first:
  "chain (parents ucost_after_first) ''012345678'' [''102345678'', ''012345678'']"
proof -
  have "chain (parents ucost_after_first) ''102345678'' [''102345678'']"
    by (rule chain.root) (simp add: ucost_after_first_def)
  then have "chain (parents ucost_after_first) ''012345678'' ([''102345678''] @ [''012345678''])"
    by (rule chain.link [rotated]) (simp add: ucost_after_first_def)
  then show ?thesis by simp
qed

lemma tree_inv_ucost_after_first: "tree_inv ucost_after_first"
  by (rule tree_inv_body [where body = "pop_body ucost_visit" and heur = None,
        OF _ tree_inv_inits(2) [OF valid_start] ucost_first_iteration]) simp

lemma tree_inv_astar_after_first: "tree_inv astar_after_first"
  by (rule tree_inv_body [where body = "pop_body (astar_visit (Some ''h1''))" and heur = "Some ''h1''",
        OF _ tree_inv_inits(4) [OF valid_start] first_iteration]) simp

lemma spec_cost_after_first: "path_cost_spec [''102345678'', ''012345678''] = 1"
  by code_simp

lemma moved_after_first: "moved_tile ''102345678'' ''012345678'' = CHR ''1''"
  by code_simp

theorem get_cost_is_spec_witness:
  "tree_inv ucost_after_first \<and> ''012345678'' \<in> dom (parents ucost_after_first)
   \<and> get_path ucost_after_first ''012345678'' = Some (Inr [''102345678'', ''012345678''])
   \<and> get_cost ucost_after_first ''012345678'' = Some (Inr 1)
   \<and> path_cost_spec [''102345678'', ''012345678''] = 1
   \<and> moved_tile ''102345678'' ''012345678'' = CHR ''1''
   \<and> moved_tile ''102345678'' ''012345678'' \<noteq> blank"
proof -
  have d: "''012345678'' \<in> dom (parents ucost_after_first)"
    by (simp add: ucost_after_first_def)
  from get_cost_is_spec [OF tree_inv_ucost_after_first d] obtain path where
    p: "chain (parents ucost_after_first) ''012345678'' path"
      "get_path ucost_after_first ''012345678'' = Some (Inr path)"
      "get_cost ucost_after_first ''012345678'' = Some (Inr (path_cost_spec path))"
      "\<forall>i. Suc i < length path \<longrightarrow> moved_tile (path ! i) (path ! Suc i) \<noteq> blank"
    by blast
  from chain_unique [OF chain_ucost_after_first p(1)]
  have e: "path = [''102345678'', ''012345678'']" .
  from p(4) [rule_format, of 0] have "moved_tile ''102345678'' ''012345678'' \<noteq> blank"
    unfolding e by simp
  with tree_inv_ucost_after_first d p(2,3) spec_cost_after_first moved_after_first
  show ?thesis unfolding e by simp
qed

lemma visiting_ucost_expanded:
  "visiting ((start_search UniformCostSolver_init ''102345678'')
      \<lparr>frontier := PriorityQueue [], explored := {''102345678''}, expanded_count := 1\<rparr>) ''102345678''"
proof -
  have p: "pop (frontier (start_search UniformCostSolver_init ''102345678''))
           = Inr (''102345678'', PriorityQueue [])"
    by (simp add: start_search_def add_to_frontier_def add_def with_entries_def pop_def
        UniformCostSolver_init_def BreadthFirstSolver_init_def)
  show ?thesis
    by (rule pop_visiting [OF tree_inv_inits(2) [OF valid_start] p])
       (simp_all add: start_search_def add_to_frontier_def UniformCostSolver_init_def
         BreadthFirstSolver_init_def)
qed

lemma visiting_bfs_expanded:
  "visiting ((start_search BreadthFirstSolver_init ''102345678'')
      \<lparr>frontier := FifoQueue [], explored := {''102345678''}, expanded_count := 1\<rparr>) ''102345678''"
proof -
  have p: "pop (frontier (start_search BreadthFirstSolver_init ''102345678''))
           = Inr (''102345678'', FifoQueue [])"
    by (simp add: start_search_def add_to_frontier_def add_def with_entries_def pop_def
        BreadthFirstSolver_init_def)
  show ?thesis
    by (rule pop_visiting [OF tree_inv_inits(1) [OF valid_start] p])
       (simp_all add: start_search_def add_to_frontier_def BreadthFirstSolver_init_def)
qed

lemma visiting_astar_after_first: "visiting astar_after_first ''102345678''"
  using tree_inv_astar_after_first valid_start
  by (simp add: visiting_def astar_after_first_def)

theorem ucost_visit_policy_witness:
  "visiting ((start_search UniformCostSolver_init ''102345678'')
      \<lparr>frontier := PriorityQueue [], explored := {''102345678''}, expanded_count := 1\<rparr>) ''102345678''
   \<and> (''up'', ''142305678'') \<in> set (successors ''102345678'')
   \<and> ''142305678'' \<notin> explored ((start_search UniformCostSolver_init ''102345678'')
      \<lparr>frontier := PriorityQueue [], explored := {''102345678''}, expanded_count := 1\<rparr>)
   \<and> \<not> contains (frontier ((start_search UniformCostSolver_init ''102345678'')
      \<lparr>frontier := PriorityQueue [], explored := {''102345678''}, expanded_count := 1\<rparr>)) ''142305678''
   \<and> ucost_visit ((start_search UniformCostSolver_init ''102345678'')
      \<lparr>frontier := PriorityQueue [], explored := {''102345678''}, expanded_count := 1\<rparr>)
       ''102345678'' (''up'', ''142305678'') =
      Some (Inr (Running ((start_search UniformCostSolver_init ''102345678'')
        \<lparr>frontier := PriorityQueue [(''142305678'', Some 16)], explored := {''102345678''},
         expanded_count := 1, frontier_count := 2,
         parents := [''102345678'' \<mapsto> None, ''142305678'' \<mapsto> Some ''102345678'']\<rparr>)))
   \<and> visiting astar_after_first ''102345678''
   \<and> ''142305678'' \<notin> explored astar_after_first
   \<and> contains (frontier astar_after_first) ''142305678''
   \<and> get (frontier astar_after_first) ''142305678'' = Inr (Some 18)
   \<and> ucost_visit astar_after_first ''102345678'' (''up'', ''142305678'') =
      Some (Inr (Running (astar_after_first
        \<lparr>parents := (parents astar_after_first)(''142305678'' \<mapsto> Some ''102345678''),
         frontier := PriorityQueue [(''120345678'', Some 6), (''012345678'', Some 1), (''142305678'', Some 16)]\<rparr>)))"
proof -
  let ?U = "(start_search UniformCostSolver_init ''102345678'')
      \<lparr>frontier := PriorityQueue [], explored := {''102345678''}, expanded_count := 1\<rparr>"
  have m: "(''up'', ''142305678'') \<in> set (successors ''102345678'')"
    by (simp add: succ_start)
  have t: "transition_cost ''102345678'' ''up'' = Inr (Some 16)"
    by code_simp
  have u: "''142305678'' \<notin> explored ?U" by simp
  have n: "\<not> contains (frontier ?U) ''142305678''" by (simp add: contains_def)
  have "chain (parents ?U) ''102345678'' [''102345678'']"
    by (rule chain.root) (simp add: start_search_def add_to_frontier_def)
  from get_cost_chain [OF this] have g: "get_cost ?U ''102345678'' = Some (Inr 0)" by simp
  from ucost_visit_policy [OF visiting_ucost_expanded m u] obtain c tc where
    c: "get_cost ?U ''102345678'' = Some (Inr c)" "transition_cost ''102345678'' ''up'' = Inr (Some tc)"
      "\<not> contains (frontier ?U) ''142305678'' \<longrightarrow>
           ucost_visit ?U ''102345678'' (''up'', ''142305678'') =
             Some (Inr (Running (?U\<lparr>parents := (parents ?U)(''142305678'' \<mapsto> Some ''102345678''),
                                   frontier_count := frontier_count ?U + 1,
                                   frontier := add (frontier ?U) ''142305678'' (Some (c + tc))\<rparr>)))"
    by blast
  from c(1,2) g t have e: "c = 0" "tc = 16" by simp_all
  from c(3) n have r1: "ucost_visit ?U ''102345678'' (''up'', ''142305678'') =
      Some (Inr (Running ((start_search UniformCostSolver_init ''102345678'')
        \<lparr>frontier := PriorityQueue [(''142305678'', Some 16)], explored := {''102345678''},
         expanded_count := 1, frontier_count := 2,
         parents := [''102345678'' \<mapsto> None, ''142305678'' \<mapsto> Some ''102345678'']\<rparr>)))"
    by (simp add: e start_search_def add_to_frontier_def add_def with_entries_def
        UniformCostSolver_init_def BreadthFirstSolver_init_def)
  have u2: "''142305678'' \<notin> explored astar_after_first"
    by (simp add: astar_after_first_def)
  have c2: "contains (frontier astar_after_first) ''142305678''"
    by (simp add: astar_after_first_def contains_def)
  have g2: "get (frontier astar_after_first) ''142305678'' = Inr (Some 18)"
    by (simp add: astar_after_first_def get_def)
  have "chain (parents astar_after_first) ''102345678'' [''102345678'']"
    by (rule chain.root) (simp add: astar_after_first_def)
  from get_cost_chain [OF this] have g3: "get_cost astar_after_first ''102345678'' = Some (Inr 0)" by simp
  from ucost_visit_policy [OF visiting_astar_after_first m u2] obtain c' tc' where
    c': "get_cost astar_after_first ''102345678'' = Some (Inr c')"
      "transition_cost ''102345678'' ''up'' = Inr (Some tc')"
      "\<forall>p. contains (frontier astar_after_first) ''142305678'' \<longrightarrow>
           get (frontier astar_after_first) ''142305678'' = Inr (Some p) \<longrightarrow> p > c' + tc' \<longrightarrow>
           ucost_visit astar_after_first ''102345678'' (''up'', ''142305678'') =
             Some (Inr (Running (astar_after_first\<lparr>parents := (parents astar_after_first)(''142305678'' \<mapsto> Some ''102345678''),
                                   frontier := add (remove (frontier astar_after_first) ''142305678'') ''142305678'' (Some (c' + tc'))\<rparr>)))"
    by blast
  from c'(1,2) g3 t have e': "c' = 0" "tc' = 16" by simp_all
  have f: "add (remove (frontier astar_after_first) ''142305678'') ''142305678'' (Some 16)
      = PriorityQueue [(''120345678'', Some 6), (''012345678'', Some 1), (''142305678'', Some 16)]"
    by (simp add: astar_after_first_def add_def remove_def with_entries_def)
  from c'(3) [rule_format, OF c2 g2] have r2: "ucost_visit astar_after_first ''102345678'' (''up'', ''142305678'') =
      Some (Inr (Running (astar_after_first
        \<lparr>parents := (parents astar_after_first)(''142305678'' \<mapsto> Some ''102345678''),
         frontier := PriorityQueue [(''120345678'', Some 6), (''012345678'', Some 1), (''142305678'', Some 16)]\<rparr>)))"
    by (simp add: e' f)
  from visiting_ucost_expanded m u n r1 visiting_astar_after_first u2 c2 g2 r2
  show ?thesis by (intro conjI)
qed

theorem bfs_goal_test_at_generation_witness:
  "visiting ((start_search BreadthFirstSolver_init ''102345678'')
      \<lparr>frontier := FifoQueue [], explored := {''102345678''}, expanded_count := 1\<rparr>) ''102345678''
   \<and> (''right'', ''012345678'') \<in> set (successors ''102345678'')
   \<and> ''012345678'' = goal ((start_search BreadthFirstSolver_init ''102345678'')
      \<lparr>frontier := FifoQueue [], explored := {''102345678''}, expanded_count := 1\<rparr>)
   \<and> bfs_visit ((start_search BreadthFirstSolver_init ''102345678'')
      \<lparr>frontier := FifoQueue [], explored := {''102345678''}, expanded_count := 1\<rparr>)
       ''102345678'' (''right'', ''012345678'') =
      Some (Inr (Returned [''frontier_count'' \<mapsto> RInt 1, ''expanded_count'' \<mapsto> RInt 1,
                  ''path_cost'' \<mapsto> RInt 1,
                  ''path'' \<mapsto> RPath [(Some ''start'', ''102345678''), (Some ''right'', ''012345678'')]]))
   \<and> bfs_visit ((start_search BreadthFirstSolver_init ''102345678'')
      \<lparr>frontier := FifoQueue [], explored := {''102345678''}, expanded_count := 1\<rparr>)
       ''102345678'' (''up'', ''142305678'') =
      Some (Inr (Running ((start_search BreadthFirstSolver_init ''102345678'')
        \<lparr>frontier := FifoQueue [(''142305678'', Some 0)], explored := {''102345678''},
         expanded_count := 1, frontier_count := 2,
         parents := [''102345678'' \<mapsto> None, ''142305678'' \<mapsto> Some ''102345678'']\<rparr>)))
   \<and> contains (frontier ((start_search BreadthFirstSolver_init ''102345678'')
        \<lparr>frontier := FifoQueue [(''142305678'', Some 0)], explored := {''102345678''},
         expanded_count := 1, frontier_count := 2,
         parents := [''102345678'' \<mapsto> None, ''142305678'' \<mapsto> Some ''102345678'']\<rparr>)) ''142305678''
   \<and> bfs_visit ((start_search BreadthFirstSolver_init ''102345678'')
        \<lparr>frontier := FifoQueue [(''142305678'', Some 0)], explored := {''102345678''},
         expanded_count := 1, frontier_count := 2,
         parents := [''102345678'' \<mapsto> None, ''142305678'' \<mapsto> Some ''102345678'']\<rparr>)
       ''102345678'' (''up'', ''142305678'') =
      Some (Inr (Running ((start_search BreadthFirstSolver_init ''102345678'')
        \<lparr>frontier := FifoQueue [(''142305678'', Some 0)], explored := {''102345678''},
         expanded_count := 1, frontier_count := 2,
         parents := [''102345678'' \<mapsto> None, ''142305678'' \<mapsto> Some ''102345678'']\<rparr>)))
   \<and> (\<exists>r. for_succs bfs_visit ((start_search BreadthFirstSolver_init ''102345678'')
      \<lparr>frontier := FifoQueue [], explored := {''102345678''}, expanded_count := 1\<rparr>)
       ''102345678'' (successors ''102345678'') = Some (Inr (Returned r)) \<and> r ''path'' \<noteq> None)
   \<and> pop (frontier (start_search BreadthFirstSolver_init ''102345678'')) = Inr (''102345678'', FifoQueue [])
   \<and> snd (expand_node ((start_search BreadthFirstSolver_init ''102345678'')\<lparr>frontier := FifoQueue []\<rparr>)
          ''102345678'') =
       (start_search BreadthFirstSolver_init ''102345678'')
         \<lparr>frontier := FifoQueue [], explored := {''102345678''}, expanded_count := 1\<rparr>
   \<and> (\<exists>r. bfs_body (start_search BreadthFirstSolver_init ''102345678'') = Some (Inr (Returned r))
          \<and> r ''path'' \<noteq> None \<and> r ''path_cost'' \<noteq> None
          \<and> bfs_solve ''102345678'' = Some (Inr r))"
proof -
  let ?B = "(start_search BreadthFirstSolver_init ''102345678'')
      \<lparr>frontier := FifoQueue [], explored := {''102345678''}, expanded_count := 1\<rparr>"
  note v = visiting_bfs_expanded
  have m: "(''right'', ''012345678'') \<in> set (successors ''102345678'')"
    "(''up'', ''142305678'') \<in> set (successors ''102345678'')"
    by (simp_all add: succ_start)
  have g: "''012345678'' = goal ?B"
    by (simp add: goal_start_search init_simps GOAL_STATE_def)
  have n: "\<not> contains (frontier ?B) ''012345678''" "''012345678'' \<notin> explored ?B"
    "\<not> contains (frontier ?B) ''142305678''" "''142305678'' \<notin> explored ?B"
    "''142305678'' \<noteq> goal ?B" "''102345678'' \<in> explored ?B"
    by (simp_all add: contains_def goal_start_search init_simps GOAL_STATE_def)
  have c: "chain (parents ?B) ''102345678'' [''102345678'']"
    by (rule chain.root) (simp add: start_search_def add_to_frontier_def)
  note T = bfs_goal_test_at_generation [OF v m(1)]
  from T n(1,2) g obtain path where
    p: "chain (parents ?B) ''102345678'' path"
      "bfs_visit ?B ''102345678'' (''right'', ''012345678'') =
               Some (Inr (Returned [''frontier_count'' \<mapsto> RInt (frontier_count ?B),
                  ''expanded_count'' \<mapsto> RInt (expanded_count ?B),
                  ''path_cost'' \<mapsto> RInt (path_cost_spec (path @ [''012345678''])),
                  ''path'' \<mapsto> RPath (zip (Some ''start'' # path_moves (path @ [''012345678'']))
                                     (path @ [''012345678'']))]))"
    by blast
  from chain_unique [OF c p(1)] have e: "path = [''102345678'']" .
  have fc: "frontier_count ?B = 1"
    by (simp add: start_search_def add_to_frontier_def init_simps)
  from p(2) have r1: "bfs_visit ?B ''102345678'' (''right'', ''012345678'') =
      Some (Inr (Returned [''frontier_count'' \<mapsto> RInt 1, ''expanded_count'' \<mapsto> RInt 1,
                  ''path_cost'' \<mapsto> RInt 1,
                  ''path'' \<mapsto> RPath [(Some ''start'', ''102345678''), (Some ''right'', ''012345678'')]]))"
    unfolding e using spec_cost_after_first by (simp add: fc moves_after_first)
  note T2 = bfs_goal_test_at_generation [OF v m(2)]
  from T2 n(3,4,5) have "bfs_visit ?B ''102345678'' (''up'', ''142305678'') =
      Some (Inr (Running (add_to_frontier (?B\<lparr>parents := (parents ?B)(''142305678'' \<mapsto> Some ''102345678'')\<rparr>)
         ''142305678'')))"
    by blast
  then have r2: "bfs_visit ?B ''102345678'' (''up'', ''142305678'') =
      Some (Inr (Running ((start_search BreadthFirstSolver_init ''102345678'')
        \<lparr>frontier := FifoQueue [(''142305678'', Some 0)], explored := {''102345678''},
         expanded_count := 1, frontier_count := 2,
         parents := [''102345678'' \<mapsto> None, ''142305678'' \<mapsto> Some ''102345678'']\<rparr>)))"
    by (simp add: start_search_def add_to_frontier_def add_def with_entries_def
        BreadthFirstSolver_init_def default_priority_def)
  let ?B2 = "(start_search BreadthFirstSolver_init ''102345678'')
        \<lparr>frontier := FifoQueue [(''142305678'', Some 0)], explored := {''102345678''},
         expanded_count := 1, frontier_count := 2,
         parents := [''102345678'' \<mapsto> None, ''142305678'' \<mapsto> Some ''102345678'']\<rparr>"
  from bfs_visit_tree [OF v m(2)] r2 have v2: "visiting ?B2 ''102345678''"
    by (simp add: running_sat_Running)
  have c2: "contains (frontier ?B2) ''142305678''" by (simp add: contains_def)
  from bfs_goal_test_at_generation [OF v2 m(2)] c2
  have r3: "bfs_visit ?B2 ''102345678'' (''up'', ''142305678'') = Some (Inr (Running ?B2))"
    by blast
  from T n(1,2) g have "\<exists>r. for_succs bfs_visit ?B ''102345678'' (successors ''102345678'')
        = Some (Inr (Returned r)) \<and> r ''path'' \<noteq> None \<and> r ''path_cost'' \<noteq> None"
    by (elim conjE allE [of _ "successors ''102345678''"]) (simp add: succ_start)
  then have r4: "\<exists>r. for_succs bfs_visit ?B ''102345678'' (successors ''102345678'')
        = Some (Inr (Returned r)) \<and> r ''path'' \<noteq> None"
    by blast
  let ?S0 = "start_search BreadthFirstSolver_init ''102345678''"
  have p0: "pop (frontier ?S0) = Inr (''102345678'', FifoQueue [])"
    by (simp add: start_search_def add_to_frontier_def add_def with_entries_def pop_def
        BreadthFirstSolver_init_def)
  have e0: "snd (expand_node (?S0\<lparr>frontier := FifoQueue []\<rparr>) ''102345678'') = ?B"
    by (simp add: expand_node_def start_search_def add_to_frontier_def BreadthFirstSolver_init_def)
  note T6 = T [THEN conjunct2, THEN conjunct2, THEN conjunct2, THEN conjunct2, THEN conjunct2,
      rule_format, OF p0 e0, THEN conjunct2]
  have gB: "goal ?B = ''012345678''" using g by simp
  from T6 n(1,2) obtain r where r: "bfs_body ?S0 = Some (Inr (Returned r))"
    "r ''path'' \<noteq> None" "r ''path_cost'' \<noteq> None"
    unfolding gB by (auto simp: succ_start)
  have ne: "\<not> is_empty (frontier ?S0)"
    by (simp add: is_empty_def start_search_def add_to_frontier_def add_def)
  have "bfs_solve ''102345678'' = while_loop bfs_body ?S0"
    by (simp add: solve_unfold GOAL_STATE_def)
  also from ne r(1) have "\<dots> = Some (Inr r)"
    by (subst while_loop.simps) simp
  finally have "bfs_solve ''102345678'' = Some (Inr r)" .
  with r have r5: "\<exists>r. bfs_body ?S0 = Some (Inr (Returned r))
          \<and> r ''path'' \<noteq> None \<and> r ''path_cost'' \<noteq> None
          \<and> bfs_solve ''102345678'' = Some (Inr r)" by blast
  from v m(1) g r1 r2 c2 r3 r4 p0 e0 r5 show ?thesis by (intro conjI)
qed

section \<open>The frontier runs empty\<close>

lemma inversions_shift:
  assumes "t \<noteq> a" "t \<noteq> c"
  shows "odd (inversions (xs @ t # a # c # ys)) = odd (inversions (xs @ a # c # t # ys))"
proof (induction xs)
  case Nil
  have "(of_char t :: nat) \<noteq> of_char a" "(of_char t :: nat) \<noteq> of_char c"
    using assms by simp_all
  then consider "(of_char t :: nat) < of_char a" "(of_char t :: nat) < of_char c"
    | "(of_char t :: nat) < of_char a" "(of_char c :: nat) < of_char t"
    | "(of_char a :: nat) < of_char t" "(of_char t :: nat) < of_char c"
    | "(of_char a :: nat) < of_char t" "(of_char c :: nat) < of_char t"
    by linarith
  then show ?case by cases auto
next
  case (Cons x xs)
  then show ?case by simp
qed

lemma split_at_two:
  assumes "Suc i < length b"
  obtains xs ys where "b = xs @ b ! i # b ! Suc i # ys" "length xs = i"
proof -
  from assms have "b = take i b @ b ! i # drop (Suc i) b" by (simp add: id_take_nth_drop)
  moreover from assms have "drop (Suc i) b = b ! Suc i # drop (Suc (Suc i)) b"
    by (simp add: Cons_nth_drop_Suc)
  ultimately have "b = take i b @ b ! i # b ! Suc i # drop (Suc (Suc i)) b" by simp
  moreover have "length (take i b) = i" using assms by simp
  ultimately show thesis by (rule that)
qed

lemma split_at_four:
  assumes "i + 3 < length b"
  obtains xs ys where "b = xs @ b ! i # b ! (i + 1) # b ! (i + 2) # b ! (i + 3) # ys" "length xs = i"
proof -
  from assms have "b = take i b @ b ! i # drop (Suc i) b" by (simp add: id_take_nth_drop)
  moreover from assms have "drop (Suc i) b = b ! Suc i # drop (Suc (Suc i)) b"
    by (simp add: Cons_nth_drop_Suc)
  moreover from assms have "drop (Suc (Suc i)) b = b ! Suc (Suc i) # drop (Suc (Suc (Suc i))) b"
    by (simp add: Cons_nth_drop_Suc)
  moreover from assms have "drop (Suc (Suc (Suc i))) b = b ! Suc (Suc (Suc i)) # drop (Suc (Suc (Suc (Suc i)))) b"
    by (simp add: Cons_nth_drop_Suc)
  ultimately have "b = take i b @ b ! i # b ! (i + 1) # b ! (i + 2) # b ! (i + 3) # drop (Suc (Suc (Suc (Suc i)))) b"
    by (simp add: numeral_3_eq_3)
  moreover have "length (take i b) = i" using assms by simp
  ultimately show thesis by (rule that)
qed

lemma swap_one_parity:
  assumes "Suc i < length b" "b ! i = blank \<or> b ! Suc i = blank"
  shows "odd_board (b[i := b ! Suc i, Suc i := b ! i]) = odd_board b"
proof -
  from assms(1) obtain xs ys where b: "b = xs @ b ! i # b ! Suc i # ys" and l: "length xs = i"
    by (rule split_at_two)
  define p q where "p = b ! i" and "q = b ! Suc i"
  from b have b': "b = xs @ p # q # ys" by (simp add: p_def q_def)
  have "b[i := q, Suc i := p] = xs @ q # p # ys"
    by (subst b') (simp add: l [symmetric] list_update_append)
  moreover have "filter (\<lambda>t. t \<noteq> blank) (xs @ q # p # ys) = filter (\<lambda>t. t \<noteq> blank) (xs @ p # q # ys)"
    using assms(2) by (auto simp: p_def q_def)
  ultimately show ?thesis
    unfolding odd_board_def p_def [symmetric] q_def [symmetric] using b' by simp
qed

lemma swap_three_parity:
  assumes "i + 3 < length b" "b ! i = blank \<or> b ! (i + 3) = blank" "distinct b"
  shows "odd_board (b[i := b ! (i + 3), i + 3 := b ! i]) = odd_board b"
proof -
  from assms(1) obtain xs ys where
    b: "b = xs @ b ! i # b ! (i + 1) # b ! (i + 2) # b ! (i + 3) # ys" and l: "length xs = i"
    by (rule split_at_four)
  define p a c q where "p = b ! i" and "a = b ! (i + 1)" and "c = b ! (i + 2)" and "q = b ! (i + 3)"
  from b have b': "b = xs @ p # a # c # q # ys" by (simp add: p_def q_def a_def c_def)
  from assms(3) have d: "distinct (xs @ p # a # c # q # ys)" by (subst (asm) b')
  have u: "b[i := q, i + 3 := p] = xs @ q # a # c # p # ys"
    by (subst b') (simp add: l [symmetric] list_update_append)
  let ?f = "filter (\<lambda>t. t \<noteq> blank)"
  from assms(2) have "p = blank \<or> q = blank" by (simp add: p_def q_def)
  then have "odd (inversions (?f (xs @ q # a # c # p # ys))) = odd (inversions (?f (xs @ p # a # c # q # ys)))"
  proof
    assume e: "p = blank"
    with d have n: "a \<noteq> blank" "c \<noteq> blank" "q \<noteq> blank" "q \<noteq> a" "q \<noteq> c" by auto
    from inversions_shift [OF n(4,5), of "?f xs" "?f ys"] show ?thesis
      using e n by simp
  next
    assume e: "q = blank"
    with d have n: "a \<noteq> blank" "c \<noteq> blank" "p \<noteq> blank" "p \<noteq> a" "p \<noteq> c" by auto
    from inversions_shift [OF n(4,5), of "?f xs" "?f ys"] show ?thesis
      using e n by simp
  qed
  then show ?thesis
    unfolding odd_board_def p_def [symmetric] q_def [symmetric] u using b' by simp
qed

lemma successors_parity:
  assumes v: "valid_board b" and m: "(move, c) \<in> set (successors b)"
  shows "odd_board c = odd_board b"
proof -
  from successors_mem [OF m] obtain dx dy where mv: "(move, dx, dy) \<in> set moves"
    and c: "create_successor b dx dy = Some c"
    by (elim exE conjE)
  from v obtain i where i: "i < 9" "b ! i = blank"
    "board_find b None = Some (int (i mod 3), 2 - int (i div 3))"
    by (rule valid_board_blank)
  define x y where "x = int (i mod 3)" and "y = 2 - int (i div 3)"
  have len: "length b = 9" using v by (simp add: valid_board_def)
  have xy: "0 \<le> x" "x < 3" "0 \<le> y" "y < 3" using i(1) by (auto simp: x_def y_def)
  have cxy: "cell x y = i" using cell_of_index [of i] by (simp add: x_def y_def)
  from c i(3) have r: "0 \<le> x + dx" "x + dx < 3" "0 \<le> y + dy" "y + dy < 3"
    and s: "c = b[cell x y := b ! cell (x + dx) (y + dy), cell (x + dx) (y + dy) := b ! cell x y]"
    by (auto simp: create_successor_def Let_def x_def y_def split: if_splits)
  define j where "j = cell (x + dx) (y + dy)"
  have j9: "j < 9" unfolding j_def by (rule cell_less [OF r])
  have s': "c = b[i := b ! j, j := b ! i]" using s by (simp add: cxy j_def)
  have dist: "distinct b" by (rule valid_board_distinct [OF v])
  from mv have "(dx = 0 \<and> dy = -1) \<or> (dx = 0 \<and> dy = 1) \<or> (dx = 1 \<and> dy = 0) \<or> (dx = -1 \<and> dy = 0)"
    by (auto simp: moves_def)
  with xy r cxy have "j = i + 3 \<or> i = j + 3 \<or> j = Suc i \<or> i = Suc j"
    unfolding j_def cell_def by auto
  then show ?thesis
  proof (elim disjE)
    assume e: "j = i + 3"
    show ?thesis unfolding s' e
      by (rule swap_three_parity) (use j9 e len i dist in simp_all)
  next
    assume e: "i = j + 3"
    have "c = b[j := b ! (j + 3), j + 3 := b ! j]"
      unfolding s' e by (simp add: list_update_swap)
    moreover have "b ! (j + 3) = blank" using i(2) e by simp
    ultimately show ?thesis
      using swap_three_parity [of j b] i(1) e len dist by simp
  next
    assume e: "j = Suc i"
    show ?thesis unfolding s' e
      by (rule swap_one_parity) (use j9 e len i in simp_all)
  next
    assume e: "i = Suc j"
    have "c = b[j := b ! Suc j, Suc j := b ! j]"
      unfolding s' e by (simp add: list_update_swap)
    moreover have "b ! Suc j = blank" using i(2) e by simp
    ultimately show ?thesis
      using swap_one_parity [of j b] i(1) e len by simp
  qed
qed

lemma goal_even: "\<not> odd_board GOAL_STATE"
  by (simp add: odd_board_def GOAL_STATE_def blank_def)

lemma finite_valid_boards: "finite {b. valid_board b}"
proof -
  have "{b. valid_board b} \<subseteq> {xs. set xs \<subseteq> set ''012345678'' \<and> length xs = 9}"
    by (rule Collect_mono) (simp add: valid_board_def)
  moreover have "finite {xs. set xs \<subseteq> set ''012345678'' \<and> length xs = 9}"
    by (rule finite_lists_length_eq) simp
  ultimately show ?thesis by (rule finite_subset)
qed

lemma start_odd:
  "valid_board ''021345678''" "odd_board ''021345678''" "''021345678'' \<noteq> GOAL_STATE"
proof -
  show "valid_board ''021345678''" by (auto simp: valid_board_def)
  show "odd_board ''021345678''" by (simp add: odd_board_def blank_def)
  show "''021345678'' \<noteq> GOAL_STATE" by (simp add: GOAL_STATE_def)
qed

lemma iterate_Suc:
  "iterate (Suc n) body s = Some s' \<longleftrightarrow>
     \<not> is_empty (frontier s) \<and> (\<exists>s1. body s = Some (Inr (Running s1)) \<and> iterate n body s1 = Some s')"
  by (auto split: option.splits sum.splits outcome.splits)

lemma iterate_while: "iterate n body s = Some s' \<Longrightarrow> while_loop body s = while_loop body s'"
proof (induction n arbitrary: s)
  case 0
  then show ?case by simp
next
  case (Suc n)
  from Suc.prems obtain s1 where e: "\<not> is_empty (frontier s)" and b: "body s = Some (Inr (Running s1))"
    and i: "iterate n body s1 = Some s'"
    unfolding iterate_Suc by blast
  from e b have "while_loop body s = while_loop body s1"
    by (subst while_loop.simps) simp
  with Suc.IH [OF i] show ?case by simp
qed

lemma while_loop_empty:
  "is_empty (frontier s) \<Longrightarrow>
   while_loop body s = Some (Inr [''frontier_count'' \<mapsto> RInt (frontier_count s),
                                  ''expanded_count'' \<mapsto> RInt (expanded_count s)])"
  by (subst while_loop.simps) (simp add: get_results_dict_def)

lemma iterate_failure:
  assumes "iterate n body s0 = Some s" "is_empty (frontier s)"
  shows "while_loop body s0 = Some (Inr [''frontier_count'' \<mapsto> RInt (frontier_count s),
                                  ''expanded_count'' \<mapsto> RInt (expanded_count s)])"
  using iterate_while [OF assms(1)] while_loop_empty [OF assms(2)] by simp

lemma numeric_add: "numeric fr \<Longrightarrow> numeric (add fr st (Some n))"
  by (auto simp: numeric_def add_def)

lemma numeric_remove: "numeric fr \<Longrightarrow> numeric (remove fr st)"
  by (auto simp: numeric_def remove_def)

lemma get_numeric:
  assumes "contains fr st" "numeric fr"
  shows "\<exists>n. get fr st = Inr (Some n)"
proof -
  from get_contains [OF assms(1)] obtain p where p: "get fr st = Inr p" ..
  then have "map_of (entries fr) st = Some p" by (simp add: get_def split: option.splits)
  then have "(st, p) \<in> set (entries fr)" by (rule map_of_SomeD)
  with assms(2) have "p \<noteq> None" by (auto simp: numeric_def)
  with p show ?thesis by auto
qed

lemma bfs_visit_goes:
  assumes "snd ms \<noteq> goal s" "numeric (frontier s)"
  shows "goes_on s (snd ms) (bfs_visit s node ms)"
  using assms
  by (auto simp: goes_on_def bfs_visit_def Let_def add_to_frontier_def default_priority_def numeric_add)

lemma greedy_visit_goes:
  assumes "heuristic (snd ms) heur = Inr (Some h)" "numeric (frontier s)"
  shows "goes_on s (snd ms) (greedy_visit heur s node ms)"
  using assms
  by (auto simp: goes_on_def greedy_visit_def Let_def bnd_simps numeric_add)

lemma ucost_visit_goes:
  assumes c: "get_cost s node = Some (Inr c)" and t: "transition_cost node (fst ms) = Inr (Some tc)"
    and c2: "\<And>s'. snd ms \<notin> explored s \<Longrightarrow> parents s' = (parents s)(snd ms \<mapsto> Some node) \<Longrightarrow>
               get_cost s' (snd ms) = Some (Inr (c + tc))"
    and n: "numeric (frontier s)"
  shows "goes_on s (snd ms) (ucost_visit s node ms)"
proof (cases "snd ms \<in> explored s")
  case True
  with c t n show ?thesis
    by (auto simp: goes_on_def ucost_visit_def Let_def bnd_simps bindE_simps py_add_def)
next
  case False
  show ?thesis
  proof (cases "contains (frontier s) (snd ms)")
    case True
    from get_numeric [OF True n] obtain p where p: "get (frontier s) (snd ms) = Inr (Some p)" ..
    from False True c t n p show ?thesis
      by (auto simp: goes_on_def ucost_visit_def Let_def bnd_simps bindE_simps py_add_def py_gt_def
          c2 [OF False] numeric_add numeric_remove)
  next
    case nc: False
    from False nc c t n show ?thesis
      by (auto simp: goes_on_def ucost_visit_def Let_def bnd_simps bindE_simps py_add_def
          c2 [OF False] numeric_add)
  qed
qed

lemma astar_visit_goes:
  assumes c: "get_cost s node = Some (Inr c)" and t: "transition_cost node (fst ms) = Inr (Some tc)"
    and c2: "\<And>s'. snd ms \<notin> explored s \<Longrightarrow> parents s' = (parents s)(snd ms \<mapsto> Some node) \<Longrightarrow>
               get_cost s' (snd ms) = Some (Inr (c + tc))"
    and h: "heuristic (snd ms) heur = Inr (Some h)"
    and n: "numeric (frontier s)"
  shows "goes_on s (snd ms) (astar_visit heur s node ms)"
proof (cases "snd ms \<in> explored s")
  case True
  with n show ?thesis
    by (auto simp: goes_on_def astar_visit_def Let_def)
next
  case False
  show ?thesis
  proof (cases "contains (frontier s) (snd ms)")
    case True
    from get_numeric [OF True n] obtain p where p: "get (frontier s) (snd ms) = Inr (Some p)" ..
    from False True c t n p h show ?thesis
      by (auto simp: goes_on_def astar_visit_def Let_def bnd_simps bindE_simps py_add_def py_lt_def
          numeric_add numeric_remove)
  next
    case nc: False
    from False nc c t n h show ?thesis
      by (auto simp: goes_on_def astar_visit_def Let_def bnd_simps bindE_simps py_add_def
          c2 [OF False] numeric_add)
  qed
qed

lemma for_each_ok:
  "(\<And>v acc. v \<in> set vs \<Longrightarrow> \<exists>r. body v acc = Inr r) \<Longrightarrow> \<exists>r. for_each vs body acc = Inr r"
proof (induction vs arbitrary: acc)
  case Nil
  then show ?case by simp
next
  case (Cons v vs)
  from Cons.prems [of v acc] obtain r where r: "body v acc = Inr r" by auto
  from Cons.IH [of r] Cons.prems obtain r' where "for_each vs body r = Inr r'" by auto
  with r show ?case by (simp add: bindE_simps)
qed

lemma for_cells_ok:
  assumes "\<And>x y acc. (x, y) \<in> set all_cells \<Longrightarrow> \<exists>r. body x y acc = Inr r"
  shows "\<exists>r. for_cells body acc = Inr r"
  unfolding for_cells_def
proof (rule for_each_ok)
  fix x :: int and a :: int
  assume x: "x \<in> set [0, 1, 2]"
  show "\<exists>r. for_each [0, 1, 2] (body x) a = Inr r"
  proof (rule for_each_ok)
    fix y :: int and a' :: int
    assume "y \<in> set [0, 1, 2]"
    with x have "(x, y) \<in> set all_cells" by (auto simp: all_cells_def)
    then show "\<exists>r. body x y a' = Inr r" by (rule assms)
  qed
qed

lemma misplaced_cell_ok:
  assumes "valid_board b" "(x, y) \<in> set all_cells"
  shows "\<exists>r. misplaced_cell b x y acc = Inr r"
proof -
  have len: "length b = 9" using assms(1) by (simp add: valid_board_def)
  have g: "length GOAL_STATE = 9" by (simp add: GOAL_STATE_def)
  from valid_board_nth [OF assms] have d: "b ! cell x y \<in> set ''012345678''" .
  show ?thesis
    by (simp add: misplaced_cell_def get_tile_cell [OF assms(2) len] get_tile_cell [OF assms(2) g]
        bindE_simps py_int_digit [OF d])
qed

lemma manhattan_cell_ok:
  assumes "valid_board b" "(x, y) \<in> set all_cells"
  shows "\<exists>r. manhattan_cell b x y acc = Inr r"
proof -
  have len: "length b = 9" using assms(1) by (simp add: valid_board_def)
  from valid_board_nth [OF assms] have d: "b ! cell x y \<in> set ''012345678''" .
  show ?thesis
    by (simp add: manhattan_cell_def get_tile_cell [OF assms(2) len] find_goal_digit [OF d]
        bindE_simps py_int_digit [OF d] split: prod.splits)
qed

lemma worse_cell_ok:
  assumes "valid_board b" "(x, y) \<in> set all_cells"
  shows "\<exists>r. worse_cell b x y acc = Inr r"
proof -
  have len: "length b = 9" using assms(1) by (simp add: valid_board_def)
  from valid_board_nth [OF assms] have d: "b ! cell x y \<in> set ''012345678''" .
  from worse_cell_value [OF assms(2) len d] show ?thesis by simp
qed

lemma heuristic_numeric:
  assumes "valid_board b" "heur = Some ''h1'' \<or> heur = Some ''h2'' \<or> heur = Some ''h3''"
  shows "\<exists>h. heuristic b heur = Inr (Some h)"
proof -
  from for_cells_ok [of "misplaced_cell b" 0, OF misplaced_cell_ok [OF assms(1)]]
  obtain h1 where h1: "num_misplaced_tiles b = Inr h1" unfolding num_misplaced_tiles_def by auto
  from for_cells_ok [of "manhattan_cell b" 0, OF manhattan_cell_ok [OF assms(1)]]
  obtain h2 where h2: "manhattan_distance b = Inr h2" unfolding manhattan_distance_def by auto
  from for_cells_ok [of "worse_cell b" 0, OF worse_cell_ok [OF assms(1)]]
  obtain h3 where h3: "worse_manhattan b = Inr h3" unfolding worse_manhattan_def by auto
  from assms(2) show ?thesis
    by (elim disjE) (simp_all add: heuristic_def h1 h2 h3 bindE_simps)
qed

lemma searching_node:
  assumes "searching s" "node \<in> explored s \<union> keys (frontier s)"
  shows "valid_board node" "odd_board node" "node \<noteq> GOAL_STATE"
proof -
  from assms have t: "tree_inv s" and d: "node \<in> dom (parents s)"
    by (auto simp: searching_def tree_inv_def ever_added_def)
  from tree_inv_valid [OF t d] show "valid_board node" .
  from assms(1) d show o: "odd_board node" by (simp add: searching_def)
  from o goal_even show "node \<noteq> GOAL_STATE" by auto
qed

lemma searching_visiting: "searching s \<Longrightarrow> node \<in> explored s \<Longrightarrow> visiting s node"
  using searching_node(1) [of s node] by (simp add: visiting_def searching_def)

lemma searching_succ:
  assumes "searching s" "node \<in> explored s" "ms \<in> set (successors node)"
  shows "valid_board (snd ms)" "odd_board (snd ms)" "snd ms \<noteq> goal s"
proof -
  from assms(3) have m: "(fst ms, snd ms) \<in> set (successors node)" by simp
  from searching_node [of s node] assms(1,2) have n: "valid_board node" "odd_board node" by simp_all
  from successors_valid [OF n(1) m] show "valid_board (snd ms)" .
  from successors_parity [OF n(1) m] n(2) show o: "odd_board (snd ms)" by simp
  from o goal_even assms(1) show "snd ms \<noteq> goal s" by (auto simp: searching_def)
qed

lemma visit_progress:
  assumes s: "searching s" and n: "node \<in> explored s" and m: "ms \<in> set (successors node)"
    and i: "inv_step s (visit s node ms)"
    and t: "running_sat (\<lambda>s. visiting s node) (visit s node ms)"
    and g: "goes_on s (snd ms) (visit s node ms)"
  shows "\<exists>s'. visit s node ms = Some (Inr (Running s')) \<and> searching s' \<and> explored s' = explored s"
proof -
  from g obtain s' where r: "visit s node ms = Some (Inr (Running s'))"
    and e: "explored s' = explored s" and gl: "goal s' = goal s"
    and d: "dom (parents s') \<subseteq> insert (snd ms) (dom (parents s))" and nu: "numeric (frontier s')"
    unfolding goes_on_def by blast
  from i r have c: "counters_inv s'" by (simp add: inv_step_def)
  from t r have tr: "tree_inv s'" by (simp add: running_sat_Running visiting_def)
  from searching_succ(2) [OF s n m] have o: "odd_board (snd ms)" .
  from s d o have p: "\<forall>b \<in> dom (parents s'). odd_board b" by (auto simp: searching_def)
  from c tr gl p nu s have "searching s'" by (simp add: searching_def)
  with r e show ?thesis by blast
qed

lemma bfs_visit_progress:
  assumes s: "searching s" and n: "node \<in> explored s" and m: "ms \<in> set (successors node)"
  shows "\<exists>s'. bfs_visit s node ms = Some (Inr (Running s')) \<and> searching s' \<and> explored s' = explored s"
proof (rule visit_progress [OF s n m])
  from s show "inv_step s (bfs_visit s node ms)" by (intro bfs_visit_inv) (simp add: searching_def)
  from searching_visiting [OF s n] m
  show "running_sat (\<lambda>s. visiting s node) (bfs_visit s node ms)" by (rule bfs_visit_tree)
  from searching_succ(3) [OF s n m] s show "goes_on s (snd ms) (bfs_visit s node ms)"
    by (intro bfs_visit_goes) (simp_all add: searching_def)
qed

lemma greedy_visit_progress:
  assumes h: "heur = Some ''h1'' \<or> heur = Some ''h2'' \<or> heur = Some ''h3''"
    and s: "searching s" and n: "node \<in> explored s" and m: "ms \<in> set (successors node)"
  shows "\<exists>s'. greedy_visit heur s node ms = Some (Inr (Running s')) \<and> searching s' \<and> explored s' = explored s"
proof (rule visit_progress [OF s n m])
  from s show "inv_step s (greedy_visit heur s node ms)" by (intro greedy_visit_inv) (simp add: searching_def)
  from searching_visiting [OF s n] m
  show "running_sat (\<lambda>s. visiting s node) (greedy_visit heur s node ms)" by (rule greedy_visit_tree)
  from heuristic_numeric [OF searching_succ(1) [OF s n m] h] obtain hv where
    "heuristic (snd ms) heur = Inr (Some hv)" ..
  then show "goes_on s (snd ms) (greedy_visit heur s node ms)"
    by (rule greedy_visit_goes) (use s in \<open>simp add: searching_def\<close>)
qed

lemma searching_costs:
  assumes v: "visiting s node" and m: "(move, succ) \<in> set (successors node)"
  obtains c tc where "get_cost s node = Some (Inr c)" "transition_cost node move = Inr (Some tc)"
    "\<And>s'. succ \<notin> explored s \<Longrightarrow> parents s' = (parents s)(succ \<mapsto> Some node) \<Longrightarrow>
           get_cost s' succ = Some (Inr (c + tc))"
proof (cases "succ \<in> explored s")
  case False
  show thesis
  proof (rule visiting_costs [OF v m False])
    fix c tc
    assume "get_cost s node = Some (Inr c)" "transition_cost node move = Inr (Some tc)"
      "\<And>s'. parents s' = (parents s)(succ \<mapsto> Some node) \<Longrightarrow> get_cost s' succ = Some (Inr (c + tc))"
    then show thesis by (intro that [of c tc]) simp_all
  qed
next
  case True
  from v have t: "tree_inv s" and n: "node \<in> explored s" and vn: "valid_board node"
    by (simp_all add: visiting_def)
  from t n have nd: "node \<in> dom (parents s)" by (auto simp: tree_inv_def ever_added_def)
  with t obtain pn where pn: "chain (parents s) node pn" "\<forall>b \<in> set pn. valid_board b"
    by (rule tree_inv_path)
  from move_cost [OF vn m] obtain tl where
    tl: "transition_cost node move = Inr (Some ((tile_value tl) ^ 2))" by blast
  from get_cost_tree [OF pn] tl True show thesis by (intro that) simp_all
qed

lemma ucost_visit_progress:
  assumes s: "searching s" and n: "node \<in> explored s" and m: "ms \<in> set (successors node)"
  shows "\<exists>s'. ucost_visit s node ms = Some (Inr (Running s')) \<and> searching s' \<and> explored s' = explored s"
proof (rule visit_progress [OF s n m])
  from s show "inv_step s (ucost_visit s node ms)" by (intro ucost_visit_inv) (simp add: searching_def)
  from searching_visiting [OF s n] m
  show "running_sat (\<lambda>s. visiting s node) (ucost_visit s node ms)" by (rule ucost_visit_tree)
  from m have m': "(fst ms, snd ms) \<in> set (successors node)" by simp
  from s have nu: "numeric (frontier s)" by (simp add: searching_def)
  show "goes_on s (snd ms) (ucost_visit s node ms)"
  proof (rule searching_costs [OF searching_visiting [OF s n] m'])
    fix c tc
    assume "get_cost s node = Some (Inr c)" "transition_cost node (fst ms) = Inr (Some tc)"
      "\<And>s'. snd ms \<notin> explored s \<Longrightarrow> parents s' = (parents s)(snd ms \<mapsto> Some node) \<Longrightarrow>
           get_cost s' (snd ms) = Some (Inr (c + tc))"
    then show ?thesis using nu by (rule ucost_visit_goes)
  qed
qed

lemma astar_visit_progress:
  assumes h: "heur = Some ''h1'' \<or> heur = Some ''h2'' \<or> heur = Some ''h3''"
    and s: "searching s" and n: "node \<in> explored s" and m: "ms \<in> set (successors node)"
  shows "\<exists>s'. astar_visit heur s node ms = Some (Inr (Running s')) \<and> searching s' \<and> explored s' = explored s"
proof (rule visit_progress [OF s n m])
  from s show "inv_step s (astar_visit heur s node ms)" by (intro astar_visit_inv) (simp add: searching_def)
  from searching_visiting [OF s n] m
  show "running_sat (\<lambda>s. visiting s node) (astar_visit heur s node ms)" by (rule astar_visit_tree)
  from m have m': "(fst ms, snd ms) \<in> set (successors node)" by simp
  from s have nu: "numeric (frontier s)" by (simp add: searching_def)
  from heuristic_numeric [OF searching_succ(1) [OF s n m] h] obtain hv where
    hv: "heuristic (snd ms) heur = Inr (Some hv)" ..
  show "goes_on s (snd ms) (astar_visit heur s node ms)"
  proof (rule searching_costs [OF searching_visiting [OF s n] m'])
    fix c tc
    assume "get_cost s node = Some (Inr c)" "transition_cost node (fst ms) = Inr (Some tc)"
      "\<And>s'. snd ms \<notin> explored s \<Longrightarrow> parents s' = (parents s)(snd ms \<mapsto> Some node) \<Longrightarrow>
           get_cost s' (snd ms) = Some (Inr (c + tc))"
    then show ?thesis using hv nu by (rule astar_visit_goes)
  qed
qed

lemma for_succs_progress:
  assumes v: "\<And>s ms. searching s \<Longrightarrow> node \<in> explored s \<Longrightarrow> ms \<in> set succs \<Longrightarrow>
      \<exists>s'. visit s node ms = Some (Inr (Running s')) \<and> searching s' \<and> explored s' = explored s"
  shows "searching s \<Longrightarrow> node \<in> explored s \<Longrightarrow>
      \<exists>s'. for_succs visit s node succs = Some (Inr (Running s')) \<and> searching s' \<and> explored s' = explored s"
  using v
proof (induction succs arbitrary: s)
  case Nil
  then show ?case by simp
next
  case (Cons ms rest)
  from Cons.prems(3) [OF Cons.prems(1,2), of ms] obtain s1 where
    s1: "visit s node ms = Some (Inr (Running s1))" "searching s1" "explored s1 = explored s"
    by auto
  from Cons.prems(2) s1(3) have n1: "node \<in> explored s1" by simp
  have "\<exists>s'. for_succs visit s1 node rest = Some (Inr (Running s')) \<and> searching s'
           \<and> explored s' = explored s1"
    by (rule Cons.IH [OF s1(2) n1]) (rule Cons.prems(3), simp_all)
  with s1 show ?case by (simp add: bnd_simps)
qed

lemma pop_searching:
  assumes s: "searching s" and e: "\<not> is_empty (frontier s)"
  obtains node fr where "pop (frontier s) = Inr (node, fr)" "node \<notin> explored s"
    "node \<noteq> GOAL_STATE"
    "searching (s\<lparr>frontier := fr, explored := insert node (explored s),
                   expanded_count := expanded_count s + 1\<rparr>)"
proof -
  from pop_nonempty [OF e] obtain node fr where p: "pop (frontier s) = Inr (node, fr)" by blast
  let ?s1 = "s\<lparr>frontier := fr, explored := insert node (explored s),
               expanded_count := expanded_count s + 1\<rparr>"
  from s have c: "counters_inv s" and t: "tree_inv s" and nu: "numeric (frontier s)"
    by (simp_all add: searching_def)
  from pop_keys_weak [OF p] have k: "node \<in> keys (frontier s)" by simp
  with c have ne: "node \<notin> explored s" by (auto simp: counters_inv_def)
  from searching_node(3) [OF s, of node] k have ng: "node \<noteq> GOAL_STATE" by simp
  from counters_inv_pop [OF c p, of ?s1] have c1: "counters_inv ?s1" by simp
  from pop_visiting [OF t p, of ?s1] have t1: "tree_inv ?s1" by (simp add: visiting_def)
  from pop_entries [OF p] obtain pr where "entries fr = remove1 (node, pr) (entries (frontier s))"
    by blast
  then have "set (entries fr) \<subseteq> set (entries (frontier s))"
    using set_remove1_subset [of "(node, pr)" "entries (frontier s)"] by simp
  with nu have n1: "numeric fr" by (auto simp: numeric_def)
  from c1 t1 n1 s have "searching ?s1" by (simp add: searching_def)
  with p ne ng show thesis by (rule that)
qed

lemma pop_body_progress:
  assumes v: "\<And>s node ms. searching s \<Longrightarrow> node \<in> explored s \<Longrightarrow> ms \<in> set (successors node) \<Longrightarrow>
      \<exists>s'. visit s node ms = Some (Inr (Running s')) \<and> searching s' \<and> explored s' = explored s"
    and s: "searching s" and e: "\<not> is_empty (frontier s)"
  shows "\<exists>s'. pop_body visit s = Some (Inr (Running s')) \<and> searching s' \<and> explored s \<subset> explored s'"
proof -
  from s e obtain node fr where p: "pop (frontier s) = Inr (node, fr)" "node \<notin> explored s"
    "node \<noteq> GOAL_STATE"
    "searching (s\<lparr>frontier := fr, explored := insert node (explored s),
                   expanded_count := expanded_count s + 1\<rparr>)"
    by (rule pop_searching)
  let ?s1 = "s\<lparr>frontier := fr, explored := insert node (explored s),
               expanded_count := expanded_count s + 1\<rparr>"
  have "\<exists>s'. for_succs visit ?s1 node (successors node) = Some (Inr (Running s')) \<and> searching s'
           \<and> explored s' = explored ?s1"
    by (rule for_succs_progress [OF _ p(4)]) (rule v, simp_all)
  then obtain s' where f: "for_succs visit ?s1 node (successors node) = Some (Inr (Running s'))"
    "searching s'" "explored s' = explored ?s1" by blast
  from s have g: "goal s = GOAL_STATE" by (simp add: searching_def)
  from p(1,3) f(1) g have "pop_body visit s = Some (Inr (Running s'))"
    by (simp add: pop_body_def bnd_simps expand_node_def)
  moreover from f(3) p(2) have "explored s \<subset> explored s'" by auto
  ultimately show ?thesis using f(2) by blast
qed

lemma bfs_body_progress:
  assumes s: "searching s" and e: "\<not> is_empty (frontier s)"
  shows "\<exists>s'. bfs_body s = Some (Inr (Running s')) \<and> searching s' \<and> explored s \<subset> explored s'"
proof -
  from s e obtain node fr where p: "pop (frontier s) = Inr (node, fr)" "node \<notin> explored s"
    "node \<noteq> GOAL_STATE"
    "searching (s\<lparr>frontier := fr, explored := insert node (explored s),
                   expanded_count := expanded_count s + 1\<rparr>)"
    by (rule pop_searching)
  let ?s1 = "s\<lparr>frontier := fr, explored := insert node (explored s),
               expanded_count := expanded_count s + 1\<rparr>"
  have "\<exists>s'. for_succs bfs_visit ?s1 node (successors node) = Some (Inr (Running s')) \<and> searching s'
           \<and> explored s' = explored ?s1"
    by (rule for_succs_progress [OF _ p(4)]) (rule bfs_visit_progress, simp_all)
  then obtain s' where f: "for_succs bfs_visit ?s1 node (successors node) = Some (Inr (Running s'))"
    "searching s'" "explored s' = explored ?s1" by blast
  from p(1) f(1) have "bfs_body s = Some (Inr (Running s'))"
    by (simp add: bfs_body_def bnd_simps expand_node_def)
  moreover from f(3) p(2) have "explored s \<subset> explored s'" by auto
  ultimately show ?thesis using f(2) by blast
qed

lemma searching_explored: "searching s \<Longrightarrow> explored s \<subseteq> {b. valid_board b}"
  using searching_node(1) [of s] by auto

lemma iterate_exhausts:
  assumes step: "\<And>s. searching s \<Longrightarrow> \<not> is_empty (frontier s) \<Longrightarrow>
      \<exists>s'. body s = Some (Inr (Running s')) \<and> searching s' \<and> explored s \<subset> explored s'"
  shows "searching s \<Longrightarrow> \<exists>n s'. iterate n body s = Some s' \<and> is_empty (frontier s')"
proof (induction "card ({b. valid_board b} - explored s)" arbitrary: s rule: less_induct)
  case less
  show ?case
  proof (cases "is_empty (frontier s)")
    case True
    then have "iterate 0 body s = Some s \<and> is_empty (frontier s)" by simp
    then show ?thesis by blast
  next
    case False
    from step [OF less.prems False] obtain s1 where s1: "body s = Some (Inr (Running s1))"
      "searching s1" "explored s \<subset> explored s1" by blast
    from searching_explored [OF s1(2)] s1(3)
    have "{b. valid_board b} - explored s1 \<subset> {b. valid_board b} - explored s" by auto
    moreover have "finite ({b. valid_board b} - explored s)"
      using finite_valid_boards by simp
    ultimately have "card ({b. valid_board b} - explored s1) < card ({b. valid_board b} - explored s)"
      by (rule psubset_card_mono [rotated])
    from less.hyps [OF this s1(2)] obtain n s' where
      n: "iterate n body s1 = Some s'" "is_empty (frontier s')" by blast
    from False s1(1) n(1) have "iterate (Suc n) body s = Some s'" by simp
    with n(2) show ?thesis by blast
  qed
qed

lemma searching_start:
  assumes "valid_board st" "odd_board st"
  shows "searching (start_search BreadthFirstSolver_init st)"
    "searching (start_search UniformCostSolver_init st)"
    "searching (start_search GreedySolver_init st)"
    "searching (start_search AStarSolver_init st)"
  using assms counters_inv_inits [of st] tree_inv_inits [OF assms(1)]
  by (simp_all add: searching_def goal_start_search init_simps)
     (simp_all add: start_search_def add_to_frontier_def add_def numeric_def default_priority_def
        BreadthFirstSolver_init_def UniformCostSolver_init_def GreedySolver_init_def
        AStarSolver_init_def with_entries_def)

lemma unsolvable_exhausts:
  assumes v: "valid_board st" and o: "odd_board st"
    and h: "heur = Some ''h1'' \<or> heur = Some ''h2'' \<or> heur = Some ''h3''"
  shows "\<exists>n s. iterate n bfs_body (start_search BreadthFirstSolver_init st) = Some s \<and> is_empty (frontier s)"
    and "\<exists>n s. iterate n (pop_body ucost_visit) (start_search UniformCostSolver_init st) = Some s
           \<and> is_empty (frontier s)"
    and "\<exists>n s. iterate n (pop_body (greedy_visit heur)) (start_search GreedySolver_init st) = Some s
           \<and> is_empty (frontier s)"
    and "\<exists>n s. iterate n (pop_body (astar_visit heur)) (start_search AStarSolver_init st) = Some s
           \<and> is_empty (frontier s)"
proof -
  show "\<exists>n s. iterate n bfs_body (start_search BreadthFirstSolver_init st) = Some s \<and> is_empty (frontier s)"
    by (rule iterate_exhausts [OF bfs_body_progress searching_start(1) [OF v o]])
  show "\<exists>n s. iterate n (pop_body ucost_visit) (start_search UniformCostSolver_init st) = Some s
           \<and> is_empty (frontier s)"
    by (rule iterate_exhausts [OF pop_body_progress [OF ucost_visit_progress] searching_start(2) [OF v o]])
  show "\<exists>n s. iterate n (pop_body (greedy_visit heur)) (start_search GreedySolver_init st) = Some s
           \<and> is_empty (frontier s)"
    by (rule iterate_exhausts [OF pop_body_progress [OF greedy_visit_progress [OF h]]
          searching_start(3) [OF v o]])
  show "\<exists>n s. iterate n (pop_body (astar_visit heur)) (start_search AStarSolver_init st) = Some s
           \<and> is_empty (frontier s)"
    by (rule iterate_exhausts [OF pop_body_progress [OF astar_visit_progress [OF h]]
          searching_start(4) [OF v o]])
qed

text \<open>
  Claim C7.  For each strategy, and for Greedy and A* with any heuristic tag: when the start
  state is not the goal state and the \<open>while\<close> loop of \<open>solve\<close>, entered after the start
  state was added, comes after \<open>n\<close> iterations without a result and without an exception
  to its test with an empty frontier, \<open>solve\<close> returns normally.  The dictionary it returns
  holds \<open>frontier_count\<close> and \<open>expanded_count\<close> with the values the counters have at that
  moment, and nothing else: neither \<open>path\<close> nor \<open>path_cost\<close>.
\<close>

theorem search_failure_result:
  assumes "start_state \<noteq> GOAL_STATE" and "is_empty (frontier s)"
  shows "(iterate n bfs_body (start_search BreadthFirstSolver_init start_state) = Some s \<longrightarrow>
            bfs_solve start_state =
              Some (Inr [''frontier_count'' \<mapsto> RInt (frontier_count s),
                         ''expanded_count'' \<mapsto> RInt (expanded_count s)]))
       \<and> (iterate n (pop_body ucost_visit) (start_search UniformCostSolver_init start_state) = Some s \<longrightarrow>
            ucost_solve start_state =
              Some (Inr [''frontier_count'' \<mapsto> RInt (frontier_count s),
                         ''expanded_count'' \<mapsto> RInt (expanded_count s)]))
       \<and> (iterate n (pop_body (greedy_visit heur)) (start_search GreedySolver_init start_state) = Some s \<longrightarrow>
            greedy_solve start_state heur =
              Some (Inr [''frontier_count'' \<mapsto> RInt (frontier_count s),
                         ''expanded_count'' \<mapsto> RInt (expanded_count s)]))
       \<and> (iterate n (pop_body (astar_visit heur)) (start_search AStarSolver_init start_state) = Some s \<longrightarrow>
            astar_solve start_state heur =
              Some (Inr [''frontier_count'' \<mapsto> RInt (frontier_count s),
                         ''expanded_count'' \<mapsto> RInt (expanded_count s)]))"
  using assms by (simp add: solve_unfold iterate_failure)

text \<open>
  Such runs exist: the board \<open>021345678\<close> is odd, so that no strategy reaches the goal state
  from it, and every strategy exhausts its frontier.
\<close>

theorem search_failure_result_witness:
  "''021345678'' \<noteq> GOAL_STATE
   \<and> (\<exists>n s. iterate n bfs_body (start_search BreadthFirstSolver_init ''021345678'') = Some s
          \<and> is_empty (frontier s)
          \<and> bfs_solve ''021345678'' =
              Some (Inr [''frontier_count'' \<mapsto> RInt (frontier_count s),
                         ''expanded_count'' \<mapsto> RInt (expanded_count s)]))
   \<and> (\<exists>n s. iterate n (pop_body ucost_visit) (start_search UniformCostSolver_init ''021345678'') = Some s
          \<and> is_empty (frontier s)
          \<and> ucost_solve ''021345678'' =
              Some (Inr [''frontier_count'' \<mapsto> RInt (frontier_count s),
                         ''expanded_count'' \<mapsto> RInt (expanded_count s)]))
   \<and> (\<exists>n s. iterate n (pop_body (greedy_visit (Some ''h1''))) (start_search GreedySolver_init ''021345678'') = Some s
          \<and> is_empty (frontier s)
          \<and> greedy_solve ''021345678'' (Some ''h1'') =
              Some (Inr [''frontier_count'' \<mapsto> RInt (frontier_count s),
                         ''expanded_count'' \<mapsto> RInt (expanded_count s)]))
   \<and> (\<exists>n s. iterate n (pop_body (astar_visit (Some ''h1''))) (start_search AStarSolver_init ''021345678'') = Some s
          \<and> is_empty (frontier s)
          \<and> astar_solve ''021345678'' (Some ''h1'') =
              Some (Inr [''frontier_count'' \<mapsto> RInt (frontier_count s),
                         ''expanded_count'' \<mapsto> RInt (expanded_count s)]))"
proof -
  note ex = unsolvable_exhausts [OF start_odd(1,2), of "Some ''h1''", simplified]
  from ex(1) obtain n1 s1 where
    r1: "iterate n1 bfs_body (start_search BreadthFirstSolver_init ''021345678'') = Some s1"
    and e1: "is_empty (frontier s1)" by blast
  from ex(2) obtain n2 s2 where
    r2: "iterate n2 (pop_body ucost_visit) (start_search UniformCostSolver_init ''021345678'') = Some s2"
    and e2: "is_empty (frontier s2)" by blast
  from ex(3) obtain n3 s3 where
    r3: "iterate n3 (pop_body (greedy_visit (Some ''h1''))) (start_search GreedySolver_init ''021345678'') = Some s3"
    and e3: "is_empty (frontier s3)" by blast
  from ex(4) obtain n4 s4 where
    r4: "iterate n4 (pop_body (astar_visit (Some ''h1''))) (start_search AStarSolver_init ''021345678'') = Some s4"
    and e4: "is_empty (frontier s4)" by blast
  from search_failure_result [OF start_odd(3) e1, of n1 None, THEN conjunct1, rule_format, OF r1]
  have b: "bfs_solve ''021345678'' =
              Some (Inr [''frontier_count'' \<mapsto> RInt (frontier_count s1),
                         ''expanded_count'' \<mapsto> RInt (expanded_count s1)])" .
  from search_failure_result [OF start_odd(3) e2, of n2 None, THEN conjunct2, THEN conjunct1,
      rule_format, OF r2]
  have u: "ucost_solve ''021345678'' =
              Some (Inr [''frontier_count'' \<mapsto> RInt (frontier_count s2),
                         ''expanded_count'' \<mapsto> RInt (expanded_count s2)])" .
  from search_failure_result [OF start_odd(3) e3, of n3 "Some ''h1''", THEN conjunct2,
      THEN conjunct2, THEN conjunct1, rule_format, OF r3]
  have g: "greedy_solve ''021345678'' (Some ''h1'') =
              Some (Inr [''frontier_count'' \<mapsto> RInt (frontier_count s3),
                         ''expanded_count'' \<mapsto> RInt (expanded_count s3)])" .
  from search_failure_result [OF start_odd(3) e4, of n4 "Some ''h1''", THEN conjunct2,
      THEN conjunct2, THEN conjunct2, rule_format, OF r4]
  have a: "astar_solve ''021345678'' (Some ''h1'') =
              Some (Inr [''frontier_count'' \<mapsto> RInt (frontier_count s4),
                         ''expanded_count'' \<mapsto> RInt (expanded_count s4)])" .
  from r1 e1 b have c1: "\<exists>n s. iterate n bfs_body (start_search BreadthFirstSolver_init ''021345678'') = Some s
          \<and> is_empty (frontier s)
          \<and> bfs_solve ''021345678'' =
              Some (Inr [''frontier_count'' \<mapsto> RInt (frontier_count s),
                         ''expanded_count'' \<mapsto> RInt (expanded_count s)])" by blast
  from r2 e2 u have c2: "\<exists>n s. iterate n (pop_body ucost_visit) (start_search UniformCostSolver_init ''021345678'') = Some s
          \<and> is_empty (frontier s)
          \<and> ucost_solve ''021345678'' =
              Some (Inr [''frontier_count'' \<mapsto> RInt (frontier_count s),
                         ''expanded_count'' \<mapsto> RInt (expanded_count s)])" by blast
  from r3 e3 g have c3: "\<exists>n s. iterate n (pop_body (greedy_visit (Some ''h1''))) (start_search GreedySolver_init ''021345678'') = Some s
          \<and> is_empty (frontier s)
          \<and> greedy_solve ''021345678'' (Some ''h1'') =
              Some (Inr [''frontier_count'' \<mapsto> RInt (frontier_count s),
                         ''expanded_count'' \<mapsto> RInt (expanded_count s)])" by blast
  from r4 e4 a have c4: "\<exists>n s. iterate n (pop_body (astar_visit (Some ''h1''))) (start_search AStarSolver_init ''021345678'') = Some s
          \<and> is_empty (frontier s)
          \<and> astar_solve ''021345678'' (Some ''h1'') =
              Some (Inr [''frontier_count'' \<mapsto> RInt (frontier_count s),
                         ''expanded_count'' \<mapsto> RInt (expanded_count s)])" by blast
  from start_odd(3) c1 c2 c3 c4 show ?thesis by (intro conjI)
qed

end
